theory Spec2Isabelle
  imports Complex_Main "HOL-Library.Monad_Syntax" "HOL-Library.Signed_Division"
begin

section \<open>A page-based B+tree index: \<^verbatim>\<open>src/storage/index/b_plus_tree.cpp\<close>\<close>

text \<open>
  The development embeds the tree engine of \<^verbatim>\<open>b_plus_tree.cpp\<close>: the three binary
  searches, \<^verbatim>\<open>GetValue\<close>, \<^verbatim>\<open>Insert\<close> with its leaf split, its split cascade and
  its root promotion, and \<^verbatim>\<open>Remove\<close>.

  Conventions.
  \<^item> A C++ \<^verbatim>\<open>int\<close> (sizes, slot indices, page identifiers) is an \<^typ>\<open>int\<close>; the values
    that occur are array sizes and page counts, far from the 32-bit bounds.
  \<^item> A result is an \<^typ>\<open>'a option\<close>: \<open>None\<close> stands for an execution that leaves the
    defined behaviour of the program (a slot read or written outside its array, a page
    identifier that was never allocated, a page used at the wrong type) or for a descent
    that does not end.
  \<^item> Page guards and latches carry no content and are not modelled; the write set of
    the \<^verbatim>\<open>Context\<close> is kept, as the stack of page identifiers on the descent path.
\<close>

subsection \<open>Keys, comparator, page identifiers\<close>

type_synonym page_id_t = int

definition INVALID_PAGE_ID :: page_id_t where
  "INVALID_PAGE_ID = - 1"

text \<open>
  Modelled from the spec: the key comparator (\<^verbatim>\<open>KeyComparator\<close>, declared outside
  \<^verbatim>\<open>b_plus_tree.cpp\<close>) is a total order on keys; it returns a negative number, zero
  or a positive number. Keys are the elements of a linear order.
\<close>

definition comparator :: "'k::linorder \<Rightarrow> 'k \<Rightarrow> int" where
  "comparator a b = (if a < b then - 1 else if a = b then 0 else 1)"

subsection \<open>Pages\<close>

text \<open>
  Modelled from the spec: the page classes (\<^verbatim>\<open>BPlusTreeLeafPage\<close>,
  \<^verbatim>\<open>BPlusTreeInternalPage\<close>, \<^verbatim>\<open>BPlusTreeHeaderPage\<close>) and their accessors are declared
  outside \<^verbatim>\<open>b_plus_tree.cpp\<close>. A leaf has a size, a maximum size, the identifier of
  the next leaf and two parallel arrays of keys and values; an internal page has a size
  (its number of children), a maximum size and two parallel arrays of keys and child
  identifiers, key slot 0 being unused. The arrays have a fixed number of slots, which
  the page layout decides (\<^verbatim>\<open>LEAF_PAGE_SLOT_CNT\<close>, \<^verbatim>\<open>INTERNAL_PAGE_SLOT_CNT\<close>); the slots
  from the size on keep whatever was written there last.
\<close>

record ('k, 'v) leaf_page =
  l_size :: int
  l_max_size :: int
  l_next_page_id :: page_id_t
  l_key_array :: "'k list"
  l_rid_array :: "'v list"

record 'k internal_page =
  i_size :: int
  i_max_size :: int
  i_key_array :: "'k list"
  i_page_id_array :: "page_id_t list"

datatype ('k, 'v) page = Leaf "('k, 'v) leaf_page" | Internal "'k internal_page"

text \<open>Array slots: a read or a write outside the array is not a defined execution.\<close>

definition read_at :: "'a list \<Rightarrow> int \<Rightarrow> 'a option" where
  "read_at xs i = (if 0 \<le> i \<and> i < int (length xs) then Some (xs ! nat i) else None)"

definition write_at :: "'a list \<Rightarrow> int \<Rightarrow> 'a \<Rightarrow> 'a list option" where
  "write_at xs i x = (if 0 \<le> i \<and> i < int (length xs) then Some (xs[nat i := x]) else None)"

definition leaf_KeyAt :: "('k, 'v) leaf_page \<Rightarrow> int \<Rightarrow> 'k option" where
  "leaf_KeyAt p i = read_at (l_key_array p) i"

definition leaf_ValueAt :: "('k, 'v) leaf_page \<Rightarrow> int \<Rightarrow> 'v option" where
  "leaf_ValueAt p i = read_at (l_rid_array p) i"

definition leaf_SetKeyAt :: "('k, 'v) leaf_page \<Rightarrow> int \<Rightarrow> 'k \<Rightarrow> ('k, 'v) leaf_page option" where
  "leaf_SetKeyAt p i k = map_option (\<lambda>ks. p\<lparr>l_key_array := ks\<rparr>) (write_at (l_key_array p) i k)"

definition leaf_SetValueAt :: "('k, 'v) leaf_page \<Rightarrow> int \<Rightarrow> 'v \<Rightarrow> ('k, 'v) leaf_page option" where
  "leaf_SetValueAt p i v = map_option (\<lambda>vs. p\<lparr>l_rid_array := vs\<rparr>) (write_at (l_rid_array p) i v)"

definition internal_KeyAt :: "'k internal_page \<Rightarrow> int \<Rightarrow> 'k option" where
  "internal_KeyAt p i = read_at (i_key_array p) i"

definition internal_ValueAt :: "'k internal_page \<Rightarrow> int \<Rightarrow> page_id_t option" where
  "internal_ValueAt p i = read_at (i_page_id_array p) i"

definition internal_SetKeyAt :: "'k internal_page \<Rightarrow> int \<Rightarrow> 'k \<Rightarrow> 'k internal_page option" where
  "internal_SetKeyAt p i k = map_option (\<lambda>ks. p\<lparr>i_key_array := ks\<rparr>) (write_at (i_key_array p) i k)"

definition internal_SetValueAt :: "'k internal_page \<Rightarrow> int \<Rightarrow> page_id_t \<Rightarrow> 'k internal_page option" where
  "internal_SetValueAt p i c = map_option (\<lambda>cs. p\<lparr>i_page_id_array := cs\<rparr>) (write_at (i_page_id_array p) i c)"

subsection \<open>The tree and the page cache\<close>

text \<open>
  The state of a tree: its construction parameters, the header page (its one field
  \<open>root_page_id\<close>) and the pages of the buffer pool. Page identifier \<open>i\<close> is the
  \<open>i\<close>-th page allocated.

  Modelled from the spec: the buffer pool manager is declared outside
  \<^verbatim>\<open>b_plus_tree.cpp\<close>; \<^verbatim>\<open>NewPage\<close> returns a fresh identifier backed by a
  zero-initialised frame. The slot counts of the two page layouts are parameters.
\<close>

record ('k, 'v) bplustree =
  leaf_max_size :: int
  internal_max_size :: int
  leaf_slot_cnt :: nat
  internal_slot_cnt :: nat
  root_page_id :: page_id_t
  pages :: "('k, 'v) page list"

definition ReadPage :: "('k, 'v) bplustree \<Rightarrow> page_id_t \<Rightarrow> ('k, 'v) page option" where
  "ReadPage t pid = read_at (pages t) pid"

definition WritePage :: "('k, 'v) bplustree \<Rightarrow> page_id_t \<Rightarrow> ('k, 'v) page \<Rightarrow> ('k, 'v) bplustree option" where
  "WritePage t pid p = map_option (\<lambda>ps. t\<lparr>pages := ps\<rparr>) (write_at (pages t) pid p)"

definition AsLeaf :: "('k, 'v) page \<Rightarrow> ('k, 'v) leaf_page option" where
  "AsLeaf p = (case p of Leaf lp \<Rightarrow> Some lp | Internal _ \<Rightarrow> None)"

definition AsInternal :: "('k, 'v) page \<Rightarrow> 'k internal_page option" where
  "AsInternal p = (case p of Leaf _ \<Rightarrow> None | Internal ip \<Rightarrow> Some ip)"

text \<open>\<^verbatim>\<open>NewPage\<close>, \<^verbatim>\<open>WritePage\<close>, \<^verbatim>\<open>AsMut<LeafPage>\<close> and \<^verbatim>\<open>Init(leaf_max_size_)\<close>.\<close>

definition NewLeafPage :: "('k::zero, 'v::zero) bplustree \<Rightarrow> page_id_t \<times> ('k, 'v) leaf_page \<times> ('k, 'v) bplustree" where
  "NewLeafPage t =
     (let p = \<lparr>l_size = 0, l_max_size = leaf_max_size t, l_next_page_id = INVALID_PAGE_ID,
                l_key_array = replicate (leaf_slot_cnt t) 0,
                l_rid_array = replicate (leaf_slot_cnt t) 0\<rparr>
      in (int (length (pages t)), p, t\<lparr>pages := pages t @ [Leaf p]\<rparr>))"

text \<open>\<^verbatim>\<open>NewPage\<close>, \<^verbatim>\<open>WritePage\<close>, \<^verbatim>\<open>AsMut<InternalPage>\<close> and \<^verbatim>\<open>Init(internal_max_size_)\<close>.\<close>

definition NewInternalPage :: "('k::zero, 'v) bplustree \<Rightarrow> page_id_t \<times> 'k internal_page \<times> ('k, 'v) bplustree" where
  "NewInternalPage t =
     (let p = \<lparr>i_size = 0, i_max_size = internal_max_size t,
                i_key_array = replicate (internal_slot_cnt t) 0,
                i_page_id_array = replicate (internal_slot_cnt t) 0\<rparr>
      in (int (length (pages t)), p, t\<lparr>pages := pages t @ [Internal p]\<rparr>))"

text \<open>The constructor: the header is initialised with no root.\<close>

definition BPlusTree :: "int \<Rightarrow> int \<Rightarrow> nat \<Rightarrow> nat \<Rightarrow> ('k, 'v) bplustree" where
  "BPlusTree leaf_max internal_max leaf_slots internal_slots =
     \<lparr>leaf_max_size = leaf_max, internal_max_size = internal_max,
      leaf_slot_cnt = leaf_slots, internal_slot_cnt = internal_slots,
      root_page_id = INVALID_PAGE_ID, pages = []\<rparr>"

definition IsEmpty :: "('k, 'v) bplustree \<Rightarrow> bool" where
  "IsEmpty t = (root_page_id t = INVALID_PAGE_ID)"

subsection \<open>Binary searches\<close>

text \<open>
  \<^verbatim>\<open>KeyBinarySearch\<close>, leaf branch: the slot holding \<open>key\<close>, or \<open>-1\<close>.
  \<^verbatim>\<open>(l + r) >> 1\<close> is a division by two; \<open>l + r\<close> is never negative inside the loop.
\<close>

function leaf_search :: "('k::linorder, 'v) leaf_page \<Rightarrow> 'k \<Rightarrow> int \<Rightarrow> int \<Rightarrow> int option" where
  "leaf_search p key l r =
     (if l \<le> r then
        (case leaf_KeyAt p ((l + r) div 2) of
           None \<Rightarrow> None
         | Some km \<Rightarrow>
             if comparator key km = 0 then Some ((l + r) div 2)
             else if comparator key km < 0 then leaf_search p key l ((l + r) div 2 - 1)
             else leaf_search p key ((l + r) div 2 + 1) r)
      else Some (- 1))"
  by pat_completeness auto
termination
  by (relation "measure (\<lambda>(p, key, l, r). nat (r - l + 1))") auto

declare leaf_search.simps [simp del]

text \<open>\<^verbatim>\<open>KeyBinarySearch\<close>, internal branch: the loop.\<close>

function internal_search :: "'k::linorder internal_page \<Rightarrow> 'k \<Rightarrow> int \<Rightarrow> int \<Rightarrow> int option" where
  "internal_search p key l r =
     (if l \<le> r then
        (case internal_KeyAt p ((l + r) div 2) of
           None \<Rightarrow> None
         | Some km \<Rightarrow>
             if comparator km key \<le> 0 then
               (if (l + r) div 2 + 1 \<ge> i_size p then Some ((l + r) div 2)
                else
                  (case internal_KeyAt p ((l + r) div 2 + 1) of
                     None \<Rightarrow> None
                   | Some kn \<Rightarrow>
                       if comparator kn key > 0 then Some ((l + r) div 2)
                       else internal_search p key ((l + r) div 2 + 1) r))
             else internal_search p key l ((l + r) div 2 - 1))
      else Some (- 1))"
  by pat_completeness auto
termination
  by (relation "measure (\<lambda>(p, key, l, r). nat (r - l + 1))") auto

declare internal_search.simps [simp del]

definition KeyBinarySearch :: "('k::linorder, 'v) page \<Rightarrow> 'k \<Rightarrow> int option" where
  "KeyBinarySearch page key =
     (case page of
        Leaf leaf_page \<Rightarrow> leaf_search leaf_page key 0 (l_size leaf_page - 1)
      | Internal internal_page \<Rightarrow>
          (case internal_KeyAt internal_page 1 of
             None \<Rightarrow> None
           | Some k1 \<Rightarrow>
               if comparator key k1 < 0 then Some 0
               else internal_search internal_page key 1 (i_size internal_page - 1)))"

text \<open>\<^verbatim>\<open>IndexBinarySearchLeaf\<close>: the slot at which \<open>key\<close> is to be inserted, or \<open>-1\<close>.\<close>

function index_search :: "('k::linorder, 'v) leaf_page \<Rightarrow> 'k \<Rightarrow> int \<Rightarrow> int \<Rightarrow> int option" where
  "index_search p key l r =
     (if l \<le> r then
        (case leaf_KeyAt p ((l + r) div 2) of
           None \<Rightarrow> None
         | Some km \<Rightarrow>
             if comparator km key < 0 then
               (if (l + r) div 2 + 1 \<ge> l_size p then Some ((l + r) div 2 + 1)
                else
                  (case leaf_KeyAt p ((l + r) div 2 + 1) of
                     None \<Rightarrow> None
                   | Some kn \<Rightarrow>
                       if comparator kn key \<ge> 0 then Some ((l + r) div 2 + 1)
                       else index_search p key ((l + r) div 2 + 1) r))
             else index_search p key l ((l + r) div 2 - 1))
      else Some (- 1))"
  by pat_completeness auto
termination
  by (relation "measure (\<lambda>(p, key, l, r). nat (r - l + 1))") auto

declare index_search.simps [simp del]

definition IndexBinarySearchLeaf :: "('k::linorder, 'v) leaf_page \<Rightarrow> 'k \<Rightarrow> int option" where
  "IndexBinarySearchLeaf page key =
     (case leaf_KeyAt page 0 of
        None \<Rightarrow> None
      | Some k0 \<Rightarrow>
          if comparator key k0 < 0 then Some 0
          else index_search page key 0 (l_size page - 1))"

subsection \<open>Counted loops\<close>

text \<open>
  A \<^verbatim>\<open>for\<close> loop whose counter runs over a fixed range and whose body may leave the
  defined behaviour: the body is run for each value of the counter in turn.
  \<^verbatim>\<open>for (i = a; i < b; i++)\<close> runs over \<open>[a..b - 1]\<close> and
  \<^verbatim>\<open>for (i = a; i > b; i--)\<close> over \<open>rev [b + 1..a]\<close>.
\<close>

fun for_each :: "int list \<Rightarrow> (int \<Rightarrow> 's \<Rightarrow> 's option) \<Rightarrow> 's \<Rightarrow> 's option" where
  "for_each [] body s = Some s"
| "for_each (i # is) body s = (case body i s of None \<Rightarrow> None | Some s' \<Rightarrow> for_each is body s')"

subsection \<open>Point query\<close>

text \<open>
  The descent of \<^verbatim>\<open>GetValue\<close>: \<^verbatim>\<open>while (!page->IsLeafPage())\<close>. The first argument
  bounds the number of iterations. The result is \<open>Some None\<close> when the loop returns
  false, \<open>Some (Some leaf)\<close> when it ends at a leaf.
\<close>

fun GetValue_descend ::
  "nat \<Rightarrow> ('k::linorder, 'v) bplustree \<Rightarrow> 'k \<Rightarrow> ('k, 'v) page \<Rightarrow> ('k, 'v) leaf_page option option" where
  "GetValue_descend n t key (Leaf leaf_page) = Some (Some leaf_page)"
| "GetValue_descend 0 t key (Internal internal_page) = None"
| "GetValue_descend (Suc n) t key (Internal internal_page) =
     do {
       index \<leftarrow> KeyBinarySearch (Internal internal_page :: ('k, 'v) page) key;
       if index = - 1 then Some None
       else do {
         page_id \<leftarrow> internal_ValueAt internal_page index;
         page \<leftarrow> ReadPage t page_id;
         GetValue_descend n t key page
       }
     }"

text \<open>
  \<^verbatim>\<open>GetValue(key, result)\<close>: the returned flag and the result vector. A descent through
  a tree visits a page at most once, so the number of pages bounds its iterations; a
  descent that needs more never ends.
\<close>

definition GetValue :: "'k::linorder \<Rightarrow> 'v list \<Rightarrow> ('k, 'v) bplustree \<Rightarrow> (bool \<times> 'v list) option" where
  "GetValue key result t =
     (if root_page_id t = INVALID_PAGE_ID then Some (False, result)
      else do {
        page \<leftarrow> ReadPage t (root_page_id t);
        found \<leftarrow> GetValue_descend (length (pages t)) t key page;
        case found of
          None \<Rightarrow> Some (False, result)
        | Some leaf_page \<Rightarrow> do {
            index \<leftarrow> KeyBinarySearch (Leaf leaf_page) key;
            if index = - 1 then Some (False, result)
            else do {
              v \<leftarrow> leaf_ValueAt leaf_page index;
              Some (True, result @ [v])
            }
          }
      })"

subsection \<open>Insertion\<close>

text \<open>
  The descent of \<^verbatim>\<open>Insert\<close> (step 2.1). \<open>write_set\<close> is \<^verbatim>\<open>ctx.write_set_\<close> and
  \<open>indexes\<close> is \<^verbatim>\<open>ctx.indexes_\<close>, both with their back at the head of the list.
\<close>

fun Insert_descend ::
  "nat \<Rightarrow> ('k::linorder, 'v) bplustree \<Rightarrow> 'k \<Rightarrow> ('k, 'v) page \<Rightarrow> page_id_t list \<Rightarrow> int list \<Rightarrow>
     (('k, 'v) page \<times> page_id_t list \<times> int list) option option" where
  "Insert_descend n t key (Leaf leaf_page) write_set indexes =
     Some (Some (Leaf leaf_page, write_set, indexes))"
| "Insert_descend 0 t key (Internal internal_page) write_set indexes = None"
| "Insert_descend (Suc n) t key (Internal internal_page) write_set indexes =
     do {
       index \<leftarrow> KeyBinarySearch (Internal internal_page :: ('k, 'v) page) key;
       if index = - 1 then Some None
       else do {
         page_id \<leftarrow> internal_ValueAt internal_page index;
         page \<leftarrow> ReadPage t page_id;
         Insert_descend n t key page (page_id # write_set) (index # indexes)
       }
     }"

text \<open>Step 2.3: the leaf is not full.\<close>

definition leaf_shift :: "int \<Rightarrow> ('k, 'v) leaf_page \<Rightarrow> ('k, 'v) leaf_page option" where
  "leaf_shift i p =
     do {
       k \<leftarrow> leaf_KeyAt p (i - 1);
       p \<leftarrow> leaf_SetKeyAt p i k;
       v \<leftarrow> leaf_ValueAt p (i - 1);
       leaf_SetValueAt p i v
     }"

definition insert_into_leaf ::
  "('k, 'v) leaf_page \<Rightarrow> int \<Rightarrow> 'k \<Rightarrow> 'v \<Rightarrow> ('k, 'v) leaf_page option" where
  "insert_into_leaf leaf_page insert_index key value =
     do {
       let size = l_size leaf_page;
       leaf_page \<leftarrow> for_each (rev [insert_index + 1..size]) leaf_shift leaf_page;
       leaf_page \<leftarrow> leaf_SetKeyAt leaf_page insert_index key;
       leaf_page \<leftarrow> leaf_SetValueAt leaf_page insert_index value;
       Some (leaf_page\<lparr>l_size := size + 1\<rparr>)
     }"

text \<open>
  Step 2.4: the leaf is full and is split. \<open>leaf_redistribute\<close> is the statement
  \<^verbatim>\<open>if (insert_index < first_size) ... else ...\<close> that moves the entries.
\<close>

definition leaf_copy ::
  "('k, 'v) leaf_page \<Rightarrow> int \<Rightarrow> int \<Rightarrow> ('k, 'v) leaf_page \<Rightarrow> ('k, 'v) leaf_page option" where
  "leaf_copy src offset i dst =
     do {
       k \<leftarrow> leaf_KeyAt src (i + offset);
       dst \<leftarrow> leaf_SetKeyAt dst i k;
       v \<leftarrow> leaf_ValueAt src (i + offset);
       leaf_SetValueAt dst i v
     }"

definition leaf_redistribute ::
  "('k, 'v) leaf_page \<Rightarrow> ('k, 'v) leaf_page \<Rightarrow> int \<Rightarrow> int \<Rightarrow> int \<Rightarrow> 'k \<Rightarrow> 'v \<Rightarrow>
     (('k, 'v) leaf_page \<times> ('k, 'v) leaf_page) option" where
  "leaf_redistribute leaf_page new_leaf_page insert_index first_size second_size key value =
     (if insert_index < first_size then
        do {
          new_leaf_page \<leftarrow>
            for_each [0..second_size - 1] (leaf_copy leaf_page (first_size - 1)) new_leaf_page;
          leaf_page \<leftarrow> for_each (rev [insert_index + 1..first_size - 1]) leaf_shift leaf_page;
          leaf_page \<leftarrow> leaf_SetKeyAt leaf_page insert_index key;
          leaf_page \<leftarrow> leaf_SetValueAt leaf_page insert_index value;
          Some (leaf_page, new_leaf_page)
        }
      else
        do {
          new_leaf_page \<leftarrow>
            for_each [0..insert_index - first_size - 1] (leaf_copy leaf_page first_size) new_leaf_page;
          new_leaf_page \<leftarrow> leaf_SetKeyAt new_leaf_page (insert_index - first_size) key;
          new_leaf_page \<leftarrow> leaf_SetValueAt new_leaf_page (insert_index - first_size) value;
          new_leaf_page \<leftarrow>
            for_each [insert_index - first_size + 1..second_size - 1]
              (leaf_copy leaf_page (first_size - 1)) new_leaf_page;
          Some (leaf_page, new_leaf_page)
        })"

definition split_leaf ::
  "('k::zero, 'v::zero) bplustree \<Rightarrow> page_id_t \<Rightarrow> ('k, 'v) leaf_page \<Rightarrow> int \<Rightarrow> 'k \<Rightarrow> 'v \<Rightarrow>
     (('k, 'v) bplustree \<times> 'k \<times> page_id_t) option" where
  "split_leaf t leaf_id leaf_page0 insert_index key value =
     do {
       let first_size = (l_max_size leaf_page0 + 2) sdiv 2;
       let second_size = l_max_size leaf_page0 + 1 - first_size;
       let (new_leaf_id, new_leaf_page, t) = NewLeafPage t;
       let new_leaf_page = new_leaf_page\<lparr>l_size := second_size\<rparr>;
       let leaf_page = leaf_page0\<lparr>l_size := first_size\<rparr>;
       let new_leaf_page = new_leaf_page\<lparr>l_next_page_id := l_next_page_id leaf_page\<rparr>;
       let leaf_page = leaf_page\<lparr>l_next_page_id := new_leaf_id\<rparr>;
       (leaf_page, new_leaf_page) \<leftarrow>
         leaf_redistribute leaf_page new_leaf_page insert_index first_size second_size key value;
       insert_key \<leftarrow> leaf_KeyAt new_leaf_page 0;
       t \<leftarrow> WritePage t leaf_id (Leaf leaf_page);
       t \<leftarrow> WritePage t new_leaf_id (Leaf new_leaf_page);
       Some (t, insert_key, new_leaf_id)
     }"

text \<open>Step 2.5, an internal page that is not full.\<close>

definition internal_shift :: "int \<Rightarrow> 'k internal_page \<Rightarrow> 'k internal_page option" where
  "internal_shift i p =
     do {
       k \<leftarrow> internal_KeyAt p (i - 1);
       p \<leftarrow> internal_SetKeyAt p i k;
       c \<leftarrow> internal_ValueAt p (i - 1);
       internal_SetValueAt p i c
     }"

definition insert_into_internal ::
  "'k internal_page \<Rightarrow> int \<Rightarrow> 'k \<Rightarrow> page_id_t \<Rightarrow> 'k internal_page option" where
  "insert_into_internal internal_page insert_index insert_key second_split_page_id =
     do {
       let size = i_size internal_page;
       internal_page \<leftarrow> for_each (rev [insert_index + 1..size]) internal_shift internal_page;
       internal_page \<leftarrow> internal_SetKeyAt internal_page insert_index insert_key;
       internal_page \<leftarrow> internal_SetValueAt internal_page insert_index second_split_page_id;
       Some (internal_page\<lparr>i_size := size + 1\<rparr>)
     }"

text \<open>
  Step 2.5, an internal page that is full and is split. \<open>internal_copy0\<close> is the body
  of the loops that skip the key of slot 0, \<open>internal_copy\<close> the body of the last loop,
  and \<open>internal_redistribute\<close> the statement \<^verbatim>\<open>if (insert_index < first_size) ... else ...\<close>
  that moves the entries and finds the key to pass up.
\<close>

definition internal_copy0 ::
  "'k internal_page \<Rightarrow> int \<Rightarrow> int \<Rightarrow> 'k internal_page \<Rightarrow> 'k internal_page option" where
  "internal_copy0 src offset i dst =
     do {
       dst \<leftarrow> (if i > 0 then do { k \<leftarrow> internal_KeyAt src (i + offset); internal_SetKeyAt dst i k }
               else Some dst);
       c \<leftarrow> internal_ValueAt src (i + offset);
       internal_SetValueAt dst i c
     }"

definition internal_copy ::
  "'k internal_page \<Rightarrow> int \<Rightarrow> int \<Rightarrow> 'k internal_page \<Rightarrow> 'k internal_page option" where
  "internal_copy src offset i dst =
     do {
       k \<leftarrow> internal_KeyAt src (i + offset);
       dst \<leftarrow> internal_SetKeyAt dst i k;
       c \<leftarrow> internal_ValueAt src (i + offset);
       internal_SetValueAt dst i c
     }"

definition internal_redistribute ::
  "'k internal_page \<Rightarrow> 'k internal_page \<Rightarrow> int \<Rightarrow> int \<Rightarrow> int \<Rightarrow> 'k \<Rightarrow> page_id_t \<Rightarrow>
     ('k internal_page \<times> 'k internal_page \<times> 'k) option" where
  "internal_redistribute internal_page new_internal_page insert_index first_size second_size
       insert_key second_split_page_id =
     (if insert_index < first_size then
        do {
          tmp_key \<leftarrow> internal_KeyAt internal_page (first_size - 1);
          new_internal_page \<leftarrow>
            for_each [0..second_size - 1] (internal_copy0 internal_page (first_size - 1))
              new_internal_page;
          internal_page \<leftarrow>
            for_each (rev [insert_index + 1..first_size - 1]) internal_shift internal_page;
          internal_page \<leftarrow> internal_SetKeyAt internal_page insert_index insert_key;
          internal_page \<leftarrow> internal_SetValueAt internal_page insert_index second_split_page_id;
          Some (internal_page, new_internal_page, tmp_key)
        }
      else
        do {
          new_internal_page \<leftarrow>
            for_each [0..insert_index - first_size - 1] (internal_copy0 internal_page first_size)
              new_internal_page;
          tmp_key \<leftarrow> internal_KeyAt internal_page first_size;
          new_internal_page \<leftarrow>
            (if insert_index > first_size
             then internal_SetKeyAt new_internal_page (insert_index - first_size) insert_key
             else Some new_internal_page);
          new_internal_page \<leftarrow>
            internal_SetValueAt new_internal_page (insert_index - first_size) second_split_page_id;
          new_internal_page \<leftarrow>
            for_each [insert_index - first_size + 1..second_size - 1]
              (internal_copy internal_page (first_size - 1)) new_internal_page;
          Some (internal_page, new_internal_page, tmp_key)
        })"

definition split_internal ::
  "('k::zero, 'v) bplustree \<Rightarrow> page_id_t \<Rightarrow> 'k internal_page \<Rightarrow> int \<Rightarrow> 'k \<Rightarrow> page_id_t \<Rightarrow>
     (('k, 'v) bplustree \<times> 'k \<times> page_id_t) option" where
  "split_internal t internal_id internal_page0 insert_index insert_key second_split_page_id =
     do {
       let first_size = (i_max_size internal_page0 + 2) sdiv 2;
       let second_size = i_max_size internal_page0 + 1 - first_size;
       let (new_internal_id, new_internal_page, t) = NewInternalPage t;
       let new_internal_page = new_internal_page\<lparr>i_size := second_size\<rparr>;
       let internal_page = internal_page0\<lparr>i_size := first_size\<rparr>;
       (internal_page, new_internal_page, tmp_key) \<leftarrow>
         internal_redistribute internal_page new_internal_page insert_index first_size second_size
           insert_key second_split_page_id;
       t \<leftarrow> WritePage t internal_id (Internal internal_page);
       t \<leftarrow> WritePage t new_internal_id (Internal new_internal_page);
       Some (t, tmp_key, new_internal_id)
     }"

text \<open>
  The cascade \<^verbatim>\<open>while (!ctx.write_set_.empty())\<close>: the result is the tree, the key and
  the page to insert one level up, and \<^verbatim>\<open>new_root_flag\<close>.
\<close>

fun cascade ::
  "('k::zero, 'v) bplustree \<Rightarrow> page_id_t list \<Rightarrow> int list \<Rightarrow> 'k \<Rightarrow> page_id_t \<Rightarrow>
     (('k, 'v) bplustree \<times> 'k \<times> page_id_t \<times> bool) option" where
  "cascade t [] indexes insert_key second_split_page_id =
     Some (t, insert_key, second_split_page_id, True)"
| "cascade t (internal_id # write_set) [] insert_key second_split_page_id = None"
| "cascade t (internal_id # write_set) (index # indexes) insert_key second_split_page_id =
     do {
       let insert_index = index + 1;
       page \<leftarrow> ReadPage t internal_id;
       internal_page \<leftarrow> AsInternal page;
       if i_size internal_page < i_max_size internal_page then
         do {
           internal_page \<leftarrow>
             insert_into_internal internal_page insert_index insert_key second_split_page_id;
           t \<leftarrow> WritePage t internal_id (Internal internal_page);
           Some (t, insert_key, second_split_page_id, False)
         }
       else
         do {
           (t, insert_key, new_internal_id) \<leftarrow>
             split_internal t internal_id internal_page insert_index insert_key second_split_page_id;
           cascade t write_set indexes insert_key new_internal_id
         }
     }"

text \<open>The new root, when \<^verbatim>\<open>new_root_flag\<close> is still set.\<close>

definition new_root ::
  "('k::zero, 'v) bplustree \<Rightarrow> 'k \<Rightarrow> page_id_t \<Rightarrow> page_id_t \<Rightarrow> ('k, 'v) bplustree option" where
  "new_root t insert_key first_split_page_id second_split_page_id =
     do {
       let (new_root_id, new_root_page, t) = NewInternalPage t;
       let new_root_page = new_root_page\<lparr>i_size := 2\<rparr>;
       new_root_page \<leftarrow> internal_SetKeyAt new_root_page 1 insert_key;
       new_root_page \<leftarrow> internal_SetValueAt new_root_page 0 first_split_page_id;
       new_root_page \<leftarrow> internal_SetValueAt new_root_page 1 second_split_page_id;
       t \<leftarrow> WritePage t new_root_id (Internal new_root_page);
       Some (t\<lparr>root_page_id := new_root_id\<rparr>)
     }"

text \<open>Step 1: the tree is empty.\<close>

definition start_new_tree :: "('k::zero, 'v::zero) bplustree \<Rightarrow> 'k \<Rightarrow> 'v \<Rightarrow> ('k, 'v) bplustree option" where
  "start_new_tree t key value =
     do {
       let (root_page_id', root_page, t) = NewLeafPage t;
       root_page \<leftarrow> leaf_SetKeyAt root_page 0 key;
       root_page \<leftarrow> leaf_SetValueAt root_page 0 value;
       let root_page = root_page\<lparr>l_size := 1\<rparr>;
       t \<leftarrow> WritePage t root_page_id' (Leaf root_page);
       Some (t\<lparr>root_page_id := root_page_id'\<rparr>)
     }"

text \<open>
  Steps 2.1 to 2.4: the descent, the search in the leaf and the insertion into the leaf.
  The outcome is that \<^verbatim>\<open>Insert\<close> returns false, that the leaf absorbed the pair, or
  that the leaf was split; in the last case the key and the page to insert one level up
  and what is left of the context (the ancestors of the leaf) are passed on.
\<close>

datatype ('k, 'v) leaf_outcome =
    ReturnedFalse
  | Absorbed "('k, 'v) bplustree"
  | Split "('k, 'v) bplustree" 'k page_id_t "page_id_t list" "int list"

definition Insert_leaf ::
  "'k::{linorder,zero} \<Rightarrow> 'v::zero \<Rightarrow> ('k, 'v) bplustree \<Rightarrow> ('k, 'v) leaf_outcome option" where
  "Insert_leaf key value t =
     do {
       page \<leftarrow> ReadPage t (root_page_id t);
       reached \<leftarrow> Insert_descend (length (pages t)) t key page [root_page_id t] [];
       case reached of
         None \<Rightarrow> Some ReturnedFalse
       | Some (page, write_set, indexes) \<Rightarrow>
           do {
             leaf_page \<leftarrow> AsLeaf page;
             insert_index \<leftarrow> IndexBinarySearchLeaf leaf_page key;
             k \<leftarrow> leaf_KeyAt leaf_page insert_index;
             if comparator k key = 0 then Some ReturnedFalse
             else if l_size leaf_page < l_max_size leaf_page then
               do {
                 leaf_page \<leftarrow> insert_into_leaf leaf_page insert_index key value;
                 t \<leftarrow> WritePage t (hd write_set) (Leaf leaf_page);
                 Some (Absorbed t)
               }
             else
               do {
                 (t, insert_key, new_leaf_id) \<leftarrow>
                   split_leaf t (hd write_set) leaf_page insert_index key value;
                 Some (Split t insert_key new_leaf_id (tl write_set) indexes)
               }
           }
     }"

text \<open>\<^verbatim>\<open>Insert(key, value)\<close>: the returned flag and the tree.\<close>

definition Insert ::
  "'k::{linorder,zero} \<Rightarrow> 'v::zero \<Rightarrow> ('k, 'v) bplustree \<Rightarrow> (bool \<times> ('k, 'v) bplustree) option" where
  "Insert key value t =
     (if root_page_id t = INVALID_PAGE_ID then
        map_option (Pair True) (start_new_tree t key value)
      else
        do {
          outcome \<leftarrow> Insert_leaf key value t;
          case outcome of
            ReturnedFalse \<Rightarrow> Some (False, t)
          | Absorbed t' \<Rightarrow> Some (True, t')
          | Split t' insert_key new_leaf_id write_set indexes \<Rightarrow>
              do {
                let first_split_page_id = root_page_id t;
                (t', insert_key, second_split_page_id, new_root_flag) \<leftarrow>
                  cascade t' write_set indexes insert_key new_leaf_id;
                if new_root_flag then
                  map_option (Pair True)
                    (new_root t' insert_key first_split_page_id second_split_page_id)
                else Some (True, t')
              }
        })"

subsection \<open>Removal\<close>

text \<open>\<^verbatim>\<open>Remove(key)\<close> declares a context and returns.\<close>

definition Remove :: "'k \<Rightarrow> ('k, 'v) bplustree \<Rightarrow> ('k, 'v) bplustree" where
  "Remove key t = t"

definition GetRootPageId :: "('k, 'v) bplustree \<Rightarrow> page_id_t" where
  "GetRootPageId t = root_page_id t"

subsection \<open>Runs and observations\<close>

text \<open>A sequence of \<^verbatim>\<open>Insert\<close> calls, whatever each returns.\<close>

fun insert_all ::
  "('k::{linorder,zero} \<times> 'v::zero) list \<Rightarrow> ('k, 'v) bplustree \<Rightarrow> ('k, 'v) bplustree option" where
  "insert_all [] t = Some t"
| "insert_all ((k, v) # kvs) t =
     (case Insert k v t of None \<Rightarrow> None | Some (b, t') \<Rightarrow> insert_all kvs t')"

text \<open>
  The split cascade of \<^verbatim>\<open>Insert(key, value)\<close>, when the insertion reaches it: the tree
  after the cascade, the key and the page left to insert above the last page split, and
  \<^verbatim>\<open>new_root_flag\<close>.
\<close>

definition Insert_cascade ::
  "'k::{linorder,zero} \<Rightarrow> 'v::zero \<Rightarrow> ('k, 'v) bplustree \<Rightarrow>
     (('k, 'v) bplustree \<times> 'k \<times> page_id_t \<times> bool) option" where
  "Insert_cascade key value t =
     (case Insert_leaf key value t of
        Some (Split t' insert_key new_leaf_id write_set indexes) \<Rightarrow>
          cascade t' write_set indexes insert_key new_leaf_id
      | _ \<Rightarrow> None)"

text \<open>
  The valid part of a page: the keys of a leaf, the separator keys (slots 1 to size - 1)
  and the children of an internal page.
\<close>

definition leaf_keys :: "('k, 'v) leaf_page \<Rightarrow> 'k list" where
  "leaf_keys p = take (nat (l_size p)) (l_key_array p)"

definition leaf_values :: "('k, 'v) leaf_page \<Rightarrow> 'v list" where
  "leaf_values p = take (nat (l_size p)) (l_rid_array p)"

definition internal_keys :: "'k internal_page \<Rightarrow> 'k list" where
  "internal_keys p = drop 1 (take (nat (i_size p)) (i_key_array p))"

definition internal_children :: "'k internal_page \<Rightarrow> page_id_t list" where
  "internal_children p = take (nat (i_size p)) (i_page_id_array p)"

datatype 'k page_view = LeafKeys "'k list" | Separators "'k list" "page_id_t list"

definition page_view :: "('k, 'v) page \<Rightarrow> 'k page_view" where
  "page_view p =
     (case p of
        Leaf lp \<Rightarrow> LeafKeys (leaf_keys lp)
      | Internal ip \<Rightarrow> Separators (internal_keys ip) (internal_children ip))"


text \<open>
  The keys stored in the subtree rooted at a page, from left to right; the first argument
  bounds the depth.
\<close>

fun subtree_keys :: "nat \<Rightarrow> ('k, 'v) bplustree \<Rightarrow> page_id_t \<Rightarrow> 'k list" where
  "subtree_keys 0 t pid = []"
| "subtree_keys (Suc n) t pid =
     (case ReadPage t pid of
        None \<Rightarrow> []
      | Some (Leaf lp) \<Rightarrow> leaf_keys lp
      | Some (Internal ip) \<Rightarrow> concat (map (subtree_keys n t) (internal_children ip)))"

text \<open>
  Separator agreement, in the words of the specification: for every internal page \<open>P\<close>
  and every slot \<open>i\<close> from 1 on, \<open>keys[i]\<close> is the minimum key in the subtree rooted at
  \<open>children[i]\<close>.
\<close>

definition separator_agreement_at :: "('k::linorder, 'v) bplustree \<Rightarrow> 'k internal_page \<Rightarrow> bool" where
  "separator_agreement_at t P =
     list_all
       (\<lambda>i. subtree_keys (length (pages t)) t (i_page_id_array P ! i) \<noteq> [] \<and>
            i_key_array P ! i = min_list (subtree_keys (length (pages t)) t (i_page_id_array P ! i)))
       [1..<nat (i_size P)]"

definition separator_agreement :: "('k::linorder, 'v) bplustree \<Rightarrow> bool" where
  "separator_agreement t =
     list_all (\<lambda>p. case p of Leaf _ \<Rightarrow> True | Internal P \<Rightarrow> separator_agreement_at t P) (pages t)"

subsection \<open>Scenarios\<close>

text \<open>Leaf and internal capacity 4, after the insertion of 5 into the empty tree.\<close>

definition tree_S5 :: "(int, int) bplustree" where
  "tree_S5 =
     \<lparr>leaf_max_size = 4, internal_max_size = 4, leaf_slot_cnt = 4, internal_slot_cnt = 4,
      root_page_id = 0,
      pages =
        [Leaf \<lparr>l_size = 1, l_max_size = 4, l_next_page_id = - 1,
               l_key_array = [5, 0, 0, 0], l_rid_array = [1, 0, 0, 0]\<rparr>]\<rparr>"

text \<open>Leaf and internal capacity 4, after the insertions of 10, 20, 30, 40, 25.\<close>

definition tree_S2 :: "(int, int) bplustree" where
  "tree_S2 =
     \<lparr>leaf_max_size = 4, internal_max_size = 4, leaf_slot_cnt = 4, internal_slot_cnt = 4,
      root_page_id = 2,
      pages =
        [Leaf \<lparr>l_size = 3, l_max_size = 4, l_next_page_id = 1,
               l_key_array = [10, 20, 25, 40], l_rid_array = [1, 2, 5, 4]\<rparr>,
         Leaf \<lparr>l_size = 2, l_max_size = 4, l_next_page_id = - 1,
               l_key_array = [30, 40, 0, 0], l_rid_array = [3, 4, 0, 0]\<rparr>,
         Internal \<lparr>i_size = 2, i_max_size = 4, i_key_array = [0, 30, 0, 0],
               i_page_id_array = [0, 1, 0, 0]\<rparr>]\<rparr>"

text \<open>
  Leaf capacity 2 and internal capacity 3, after the insertions of 10, 20, 30, 40, 50:
  the root has three children and is full, its middle leaf is full.
\<close>

definition tree_five :: "(int, int) bplustree" where
  "tree_five =
     \<lparr>leaf_max_size = 2, internal_max_size = 3, leaf_slot_cnt = 4, internal_slot_cnt = 4,
      root_page_id = 2,
      pages =
        [Leaf \<lparr>l_size = 2, l_max_size = 2, l_next_page_id = 1,
               l_key_array = [10, 20, 0, 0], l_rid_array = [1, 2, 0, 0]\<rparr>,
         Leaf \<lparr>l_size = 2, l_max_size = 2, l_next_page_id = 3,
               l_key_array = [30, 40, 0, 0], l_rid_array = [3, 4, 0, 0]\<rparr>,
         Internal \<lparr>i_size = 3, i_max_size = 3, i_key_array = [0, 30, 50, 0],
               i_page_id_array = [0, 1, 3, 0]\<rparr>,
         Leaf \<lparr>l_size = 1, l_max_size = 2, l_next_page_id = - 1,
               l_key_array = [50, 0, 0, 0], l_rid_array = [5, 0, 0, 0]\<rparr>]\<rparr>"


text \<open>The same tree after the insertion of 45.\<close>

definition tree_six :: "(int, int) bplustree" where
  "tree_six =
     \<lparr>leaf_max_size = 2, internal_max_size = 3, leaf_slot_cnt = 4, internal_slot_cnt = 4,
      root_page_id = 6,
      pages =
        [Leaf \<lparr>l_size = 2, l_max_size = 2, l_next_page_id = 1,
               l_key_array = [10, 20, 0, 0], l_rid_array = [1, 2, 0, 0]\<rparr>,
         Leaf \<lparr>l_size = 2, l_max_size = 2, l_next_page_id = 4,
               l_key_array = [30, 40, 0, 0], l_rid_array = [3, 4, 0, 0]\<rparr>,
         Internal \<lparr>i_size = 2, i_max_size = 3, i_key_array = [0, 30, 50, 0],
               i_page_id_array = [0, 1, 3, 0]\<rparr>,
         Leaf \<lparr>l_size = 1, l_max_size = 2, l_next_page_id = - 1,
               l_key_array = [50, 0, 0, 0], l_rid_array = [5, 0, 0, 0]\<rparr>,
         Leaf \<lparr>l_size = 1, l_max_size = 2, l_next_page_id = 3,
               l_key_array = [45, 0, 0, 0], l_rid_array = [6, 0, 0, 0]\<rparr>,
         Internal \<lparr>i_size = 2, i_max_size = 3, i_key_array = [0, 50, 0, 0],
               i_page_id_array = [4, 3, 0, 0]\<rparr>,
         Internal \<lparr>i_size = 2, i_max_size = 3, i_key_array = [0, 50, 0, 0],
               i_page_id_array = [2, 5, 0, 0]\<rparr>]\<rparr>"

text \<open>
  The same tree in the course of the insertion of 45, once the root is split as well and
  before the new root is made.
\<close>

definition tree_five_cascaded :: "(int, int) bplustree" where
  "tree_five_cascaded =
     \<lparr>leaf_max_size = 2, internal_max_size = 3, leaf_slot_cnt = 4, internal_slot_cnt = 4,
      root_page_id = 2,
      pages =
        [Leaf \<lparr>l_size = 2, l_max_size = 2, l_next_page_id = 1,
               l_key_array = [10, 20, 0, 0], l_rid_array = [1, 2, 0, 0]\<rparr>,
         Leaf \<lparr>l_size = 2, l_max_size = 2, l_next_page_id = 4,
               l_key_array = [30, 40, 0, 0], l_rid_array = [3, 4, 0, 0]\<rparr>,
         Internal \<lparr>i_size = 2, i_max_size = 3, i_key_array = [0, 30, 50, 0],
               i_page_id_array = [0, 1, 3, 0]\<rparr>,
         Leaf \<lparr>l_size = 1, l_max_size = 2, l_next_page_id = - 1,
               l_key_array = [50, 0, 0, 0], l_rid_array = [5, 0, 0, 0]\<rparr>,
         Leaf \<lparr>l_size = 1, l_max_size = 2, l_next_page_id = 3,
               l_key_array = [45, 0, 0, 0], l_rid_array = [6, 0, 0, 0]\<rparr>,
         Internal \<lparr>i_size = 2, i_max_size = 3, i_key_array = [0, 50, 0, 0],
               i_page_id_array = [4, 3, 0, 0]\<rparr>]\<rparr>"

text \<open>Leaf and internal capacity 4, after the insertions of 5 and 7.\<close>

definition tree_S5_7 :: "(int, int) bplustree" where
  "tree_S5_7 =
     \<lparr>leaf_max_size = 4, internal_max_size = 4, leaf_slot_cnt = 4, internal_slot_cnt = 4,
      root_page_id = 0,
      pages =
        [Leaf \<lparr>l_size = 2, l_max_size = 4, l_next_page_id = - 1,
               l_key_array = [5, 7, 0, 0], l_rid_array = [1, 2, 0, 0]\<rparr>]\<rparr>"

text \<open>Leaf and internal capacity 4, after the insertion of - 1 into the empty tree.\<close>

definition tree_minus_one :: "(int, int) bplustree" where
  "tree_minus_one =
     \<lparr>leaf_max_size = 4, internal_max_size = 4, leaf_slot_cnt = 4, internal_slot_cnt = 4,
      root_page_id = 0,
      pages =
        [Leaf \<lparr>l_size = 1, l_max_size = 4, l_next_page_id = - 1,
               l_key_array = [- 1, 0, 0, 0], l_rid_array = [1, 0, 0, 0]\<rparr>]\<rparr>"




definition full_root :: "int internal_page" where
  "full_root = \<lparr>i_size = 3, i_max_size = 3, i_key_array = [0, 30, 50, 0],
                 i_page_id_array = [0, 1, 3, 0]\<rparr>"

text \<open>
  Leaf capacity 5 (6 slots), after the insertions of 10, 20, 30, 40, 50: the root is a full
  leaf. \<open>wide_leaf\<close> is that leaf.
\<close>

definition tree_wide :: "(int, int) bplustree" where
  "tree_wide =
     \<lparr>leaf_max_size = 5, internal_max_size = 3, leaf_slot_cnt = 6, internal_slot_cnt = 4,
      root_page_id = 0,
      pages =
        [Leaf \<lparr>l_size = 5, l_max_size = 5, l_next_page_id = - 1,
               l_key_array = [10, 20, 30, 40, 50, 0], l_rid_array = [1, 2, 3, 4, 5, 0]\<rparr>]\<rparr>"

definition wide_leaf :: "(int, int) leaf_page" where
  "wide_leaf = \<lparr>l_size = 5, l_max_size = 5, l_next_page_id = - 1,
                 l_key_array = [10, 20, 30, 40, 50, 0], l_rid_array = [1, 2, 3, 4, 5, 0]\<rparr>"







section \<open>Properties\<close>

subsection \<open>Removal\<close>

text \<open>
  C10. \<^verbatim>\<open>Remove\<close> is a no-op: for every tree and every key, present or not, the tree
  after the call (header, internal pages, leaves and leaf chain) is the tree before it,
  and a lookup of the key gives what it gave before.
\<close>

theorem Remove_is_noop:
  "Remove key t = t \<and> GetValue key result (Remove key t) = GetValue key result t"
  by (simp add: Remove_def)

subsection \<open>The first insertion\<close>

text \<open>
  C7. On an empty tree (the header's root is \<open>INVALID_PAGE_ID\<close>), \<^verbatim>\<open>Insert(key, value)\<close>
  allocates a fresh page, makes it a leaf of size 1 that holds the pair in slot 0, writes
  the identifier of that page into the header and returns true. The page layout is
  assumed to have at least one slot.
\<close>

theorem Insert_empty_tree:
  assumes "root_page_id t = INVALID_PAGE_ID" and "0 < leaf_slot_cnt t"
  shows "Insert key value t =
    Some (True,
      t\<lparr>root_page_id := int (length (pages t)),
        pages := pages t @
          [Leaf \<lparr>l_size = 1, l_max_size = leaf_max_size t, l_next_page_id = INVALID_PAGE_ID,
                 l_key_array = key # replicate (leaf_slot_cnt t - 1) 0,
                 l_rid_array = value # replicate (leaf_slot_cnt t - 1) 0\<rparr>]\<rparr>)"
proof -
  obtain n where n: "leaf_slot_cnt t = Suc n"
    using assms(2) by (cases "leaf_slot_cnt t") auto
  show ?thesis
    using assms(1)
    by (simp add: Insert_def start_new_tree_def NewLeafPage_def leaf_SetKeyAt_def
        leaf_SetValueAt_def write_at_def WritePage_def Let_def n)
qed

theorem Insert_empty_tree_witness:
  "root_page_id (BPlusTree 4 4 4 4 :: (int, int) bplustree) = INVALID_PAGE_ID \<and>
   0 < leaf_slot_cnt (BPlusTree 4 4 4 4 :: (int, int) bplustree) \<and>
   Insert 5 1 (BPlusTree 4 4 4 4) = Some (True, tree_S5)"
  using Insert_empty_tree [of "BPlusTree 4 4 4 4 :: (int, int) bplustree" 5 1]
  by (simp add: BPlusTree_def tree_S5_def INVALID_PAGE_ID_def eval_nat_numeral)

subsection \<open>Rejected insertions\<close>

text \<open>
  C9. Whenever \<^verbatim>\<open>Insert(key, value)\<close> returns false, the tree is unchanged: the header
  and every page are what they were before the call.
\<close>

theorem Insert_false_unchanged:
  "Insert key value t = Some (False, t') \<Longrightarrow> t' = t"
  by (auto simp: Insert_def Let_def
      split: if_splits option.splits prod.splits bind_splits leaf_outcome.splits)

theorem Insert_false_unchanged_witness:
  "Insert 40 9 tree_S2 = Some (False, tree_S2) \<and> tree_S2 = tree_S2"
proof -
  have h: "Insert 40 9 tree_S2 = Some (False, tree_S2)"
    by code_simp
  from Insert_false_unchanged [OF h] h show ?thesis by simp
qed

subsection \<open>What a successful step tells\<close>

lemma read_at_SomeD:
  "read_at xs i = Some x \<Longrightarrow> 0 \<le> i \<and> i < int (length xs) \<and> x = xs ! nat i"
  by (auto simp: read_at_def split: if_splits)

lemma write_at_SomeD:
  "write_at xs i x = Some ys \<Longrightarrow> 0 \<le> i \<and> i < int (length xs) \<and> ys = xs[nat i := x]"
  by (auto simp: write_at_def split: if_splits)

lemma WritePage_SomeD:
  "WritePage t pid p = Some t' \<Longrightarrow>
     0 \<le> pid \<and> pid < int (length (pages t)) \<and> t' = t\<lparr>pages := (pages t)[nat pid := p]\<rparr>"
  by (auto simp: WritePage_def dest!: write_at_SomeD)

lemma ReadPage_SomeD:
  "ReadPage t pid = Some p \<Longrightarrow> 0 \<le> pid \<and> pid < int (length (pages t)) \<and> p = pages t ! nat pid"
  by (auto simp: ReadPage_def dest!: read_at_SomeD)

lemma ReadPage_fresh: "ReadPage t (int (length (pages t))) = None"
  by (simp add: ReadPage_def read_at_def)

subsection \<open>The header during an insertion\<close>

lemma split_internal_root:
  "split_internal t pid ip idx k c = Some (t', k', c') \<Longrightarrow> root_page_id t' = root_page_id t"
  by (auto simp: split_internal_def Let_def NewInternalPage_def
      split: bind_splits if_splits prod.splits dest!: WritePage_SomeD)

lemma cascade_root:
  "cascade t ws idxs k c = Some (t', k', c', f) \<Longrightarrow> root_page_id t' = root_page_id t"
proof (induction t ws idxs k c rule: cascade.induct)
  case (1 t indexes insert_key second_split_page_id)
  then show ?case by simp
next
  case (2 t internal_id write_set insert_key second_split_page_id)
  then show ?case by simp
next
  case (3 t internal_id write_set index indexes insert_key second_split_page_id)
  then show ?case
    by (auto simp: Let_def split: bind_splits if_splits prod.splits
        dest!: WritePage_SomeD split_internal_root)
qed

lemma split_leaf_root:
  "split_leaf t pid lp idx k v = Some (t', k', c') \<Longrightarrow> root_page_id t' = root_page_id t"
  by (auto simp: split_leaf_def Let_def NewLeafPage_def
      split: bind_splits if_splits prod.splits dest!: WritePage_SomeD)

lemma Insert_leaf_root:
  "Insert_leaf key value t = Some out \<Longrightarrow>
     (case out of
        ReturnedFalse \<Rightarrow> True
      | Absorbed t' \<Rightarrow> root_page_id t' = root_page_id t
      | Split t' k c ws idxs \<Rightarrow> root_page_id t' = root_page_id t)"
  by (auto simp: Insert_leaf_def Let_def
      split: bind_splits if_splits prod.splits option.splits leaf_outcome.splits
      dest!: WritePage_SomeD split_leaf_root)

lemma new_root_SomeD:
  assumes "new_root t k first second = Some t'"
  shows "root_page_id t' = int (length (pages t)) \<and>
    (\<exists>R. pages t' = pages t @ [Internal R] \<and> i_size R = 2 \<and>
       i_max_size R = internal_max_size t \<and>
       internal_ValueAt R 0 = Some first \<and> internal_ValueAt R 1 = Some second \<and>
       internal_KeyAt R 1 = Some k)"
  using assms
  by (auto simp: new_root_def Let_def NewInternalPage_def internal_SetKeyAt_def
      internal_SetValueAt_def internal_ValueAt_def internal_KeyAt_def read_at_def
      split: bind_splits if_splits prod.splits dest!: WritePage_SomeD write_at_SomeD)

text \<open>
  C8, as amended. Let an insertion into a non-empty tree complete. If its split cascade
  consumed every ancestor and left \<^verbatim>\<open>new_root_flag\<close> set, the insertion returns true, a
  fresh page \<open>R\<close> is appended to the pages the cascade left, \<open>R\<close> is an internal page of
  size 2 whose child 0 is the old root, whose child 1 is the page the cascade passed up
  and whose key 1 is the key the cascade passed up, and the header's root is the
  identifier of \<open>R\<close>. In every other case the header's root is unchanged.
\<close>

theorem Insert_root_page_id:
  assumes "root_page_id t \<noteq> INVALID_PAGE_ID" and "Insert key value t = Some (b, t')"
  shows "case Insert_cascade key value t of
           Some (t2, split_key, split_child, True) \<Rightarrow>
             b \<and> root_page_id t' = int (length (pages t2)) \<and>
             ReadPage t2 (root_page_id t') = None \<and>
             (\<exists>R. pages t' = pages t2 @ [Internal R] \<and> i_size R = 2 \<and>
                  internal_ValueAt R 0 = Some (root_page_id t) \<and>
                  internal_ValueAt R 1 = Some split_child \<and>
                  internal_KeyAt R 1 = Some split_key)
         | _ \<Rightarrow> root_page_id t' = root_page_id t"
proof -
  from assms obtain out where out: "Insert_leaf key value t = Some out"
    by (auto simp: Insert_def split: bind_splits)
  show ?thesis
  proof (cases out)
    case ReturnedFalse
    with assms out show ?thesis
      by (simp add: Insert_def Insert_cascade_def)
  next
    case (Absorbed t1)
    with assms out Insert_leaf_root [OF out] show ?thesis
      by (simp add: Insert_def Insert_cascade_def)
  next
    case (Split t1 k1 c1 ws idxs)
    with Insert_leaf_root [OF out] have r1: "root_page_id t1 = root_page_id t"
      by simp
    from assms out Split obtain t2 k2 c2 f where
      casc: "cascade t1 ws idxs k1 c1 = Some (t2, k2, c2, f)"
      by (auto simp: Insert_def split: bind_splits)
    have r2: "root_page_id t2 = root_page_id t"
      using cascade_root [OF casc] r1 by simp
    show ?thesis
    proof (cases f)
      case True
      with assms out Split casc
      obtain nr: "new_root t2 k2 (root_page_id t) c2 = Some t'" and b
        by (auto simp: Insert_def)
      from new_root_SomeD [OF nr] out Split casc True \<open>b\<close> show ?thesis
        by (auto simp: Insert_cascade_def ReadPage_fresh)
    next
      case False
      with assms out Split casc r2 show ?thesis
        by (auto simp: Insert_def Insert_cascade_def)
    qed
  qed
qed

theorem Insert_root_page_id_witness:
  "(root_page_id tree_five \<noteq> INVALID_PAGE_ID \<and>
    Insert 45 6 tree_five = Some (True, tree_six) \<and>
    Insert_cascade 45 6 tree_five = Some (tree_five_cascaded, 50, 5, True) \<and>
    root_page_id tree_six = int (length (pages tree_five_cascaded)) \<and>
    pages tree_six = pages tree_five_cascaded @
      [Internal \<lparr>i_size = 2, i_max_size = 3, i_key_array = [0, 50, 0, 0],
                 i_page_id_array = [2, 5, 0, 0]\<rparr>]) \<and>
   (root_page_id tree_S5 \<noteq> INVALID_PAGE_ID \<and>
    Insert 7 2 tree_S5 = Some (True, tree_S5_7) \<and>
    Insert_cascade 7 2 tree_S5 = None \<and>
    root_page_id tree_S5_7 = root_page_id tree_S5)"
proof -
  have a1: "root_page_id tree_five \<noteq> INVALID_PAGE_ID" by code_simp
  have a2: "Insert 45 6 tree_five = Some (True, tree_six)" by code_simp
  have a3: "Insert_cascade 45 6 tree_five = Some (tree_five_cascaded, 50, 5, True)" by code_simp
  have a4: "pages tree_six = pages tree_five_cascaded @
      [Internal \<lparr>i_size = 2, i_max_size = 3, i_key_array = [0, 50, 0, 0],
                 i_page_id_array = [2, 5, 0, 0]\<rparr>]" by code_simp
  have b1: "root_page_id tree_S5 \<noteq> INVALID_PAGE_ID" by code_simp
  have b2: "Insert 7 2 tree_S5 = Some (True, tree_S5_7)" by code_simp
  have b3: "Insert_cascade 7 2 tree_S5 = None" by code_simp
  from Insert_root_page_id [OF a1 a2] a3
  have a5: "root_page_id tree_six = int (length (pages tree_five_cascaded))" by simp
  from Insert_root_page_id [OF b1 b2] b3
  have b4: "root_page_id tree_S5_7 = root_page_id tree_S5" by simp
  from a1 a2 a3 a4 a5 b1 b2 b3 b4 show ?thesis by blast
qed

theorem Insert_first_changes_root:
  "root_page_id (BPlusTree 4 4 4 4 :: (int, int) bplustree) = INVALID_PAGE_ID \<and>
   Insert 5 1 (BPlusTree 4 4 4 4) = Some (True, tree_S5) \<and>
   Insert_cascade 5 1 (BPlusTree 4 4 4 4 :: (int, int) bplustree) = None \<and>
   root_page_id tree_S5 \<noteq> root_page_id (BPlusTree 4 4 4 4 :: (int, int) bplustree)"
  by code_simp

subsection \<open>Scenarios\<close>

text \<open>
  C6, as amended. With leaf and internal capacity 4 and integer keys, the insertions of
  10, 20, 30, 40, 25 into the empty tree leave exactly two leaves, the first with the keys
  10, 20, 25 and the second with the keys 30, 40; the root is an internal page whose one
  separator is 30 and whose two children are these leaves; a lookup of 30 finds it.
\<close>

theorem scenario_S2:
  "insert_all [(10, 1), (20, 2), (30, 3), (40, 4), (25, 5)] (BPlusTree 4 4 4 4) = Some tree_S2 \<and>
   root_page_id tree_S2 = 2 \<and>
   map page_view (pages tree_S2) =
     [LeafKeys [10, 20, 25], LeafKeys [30, 40], Separators [30] [0, 1]] \<and>
   GetValue 30 [] tree_S2 = Some (True, [3])"
  by code_simp

theorem scenario_S2_not_as_claimed:
  "insert_all [(10, 1), (20, 2), (30, 3), (40, 4), (25, 5)] (BPlusTree 4 4 4 4) = Some tree_S2 \<and>
   LeafKeys [10, 20] \<notin> set (map page_view (pages tree_S2)) \<and>
   LeafKeys [25, 30, 40] \<notin> set (map page_view (pages tree_S2)) \<and>
   Separators [25] [0, 1] \<notin> set (map page_view (pages tree_S2))"
  by code_simp

subsection \<open>Where the code departs from its contract\<close>

text \<open>
  C1 does not hold of the code. With leaf capacity 2 and internal capacity 3, the
  insertions of 10, 20, 30, 40, 50 lead to \<open>tree_five\<close>; the insertion of 45 then returns
  true, and the lookup of 45 that follows returns false.
\<close>

theorem Insert_then_GetValue_fails:
  "insert_all [(10, 1), (20, 2), (30, 3), (40, 4), (50, 5)] (BPlusTree 2 3 4 4) = Some tree_five \<and>
   Insert 45 6 tree_five = Some (True, tree_six) \<and>
   GetValue 45 [] tree_six = Some (False, [])"
  by code_simp

text \<open>
  C2 does not hold of the code. After the insertion of 5 into the empty tree, the leaf
  holds 5 in slot 0; for the key 5 the insert search returns \<open>-1\<close>, and the second
  insertion of 5 reads key slot \<open>-1\<close> of the leaf: it does not return false.
\<close>

theorem Insert_duplicate_of_slot_0:
  "Insert 5 1 (BPlusTree 4 4 4 4) = Some (True, tree_S5) \<and>
   ReadPage tree_S5 (root_page_id tree_S5) =
     Some (Leaf \<lparr>l_size = 1, l_max_size = 4, l_next_page_id = - 1,
                  l_key_array = [5, 0, 0, 0], l_rid_array = [1, 0, 0, 0]\<rparr>) \<and>
   IndexBinarySearchLeaf
     \<lparr>l_size = 1, l_max_size = 4, l_next_page_id = - 1,
      l_key_array = [5 :: int, 0, 0, 0], l_rid_array = [1 :: int, 0, 0, 0]\<rparr> 5 = Some (- 1) \<and>
   Insert 5 2 tree_S5 = None"
  by code_simp

text \<open>
  The other direction fails as well: the key found at the insert position is compared
  with the new key also when the position is the size of the leaf. After the insertion
  of \<open>-1\<close>, slot 1 of the leaf still holds the zero of the fresh page, and the insertion
  of the key 0, which the tree does not hold, returns false.
\<close>

lemma Insert_false_without_duplicate:
  "Insert (- 1) 1 (BPlusTree 4 4 4 4) = Some (True, tree_minus_one) \<and>
   map page_view (pages tree_minus_one) = [LeafKeys [- 1]] \<and>
   Insert 0 2 tree_minus_one = Some (False, tree_minus_one)"
  by code_simp

text \<open>
  C3 does not hold of the code. After the insertions of 10, 20, 30, 40, 50, 45 (leaf
  capacity 2, internal capacity 3) the root holds the separator 50 for its child 5, and
  the subtree of page 5 holds the keys 45 and 50. Before the last insertion separator
  agreement held.
\<close>

theorem separator_agreement_fails:
  "insert_all [(10, 1), (20, 2), (30, 3), (40, 4), (50, 5)] (BPlusTree 2 3 4 4) = Some tree_five \<and>
   separator_agreement tree_five \<and>
   Insert 45 6 tree_five = Some (True, tree_six) \<and>
   ReadPage tree_six (root_page_id tree_six) =
     Some (Internal \<lparr>i_size = 2, i_max_size = 3, i_key_array = [0, 50, 0, 0],
                      i_page_id_array = [2, 5, 0, 0]\<rparr>) \<and>
   subtree_keys (length (pages tree_six)) tree_six 5 = [45, 50] \<and>
   \<not> separator_agreement tree_six"
  by code_simp

subsection \<open>The loops over a leaf\<close>

lemma leaf_KeyAt_SomeD:
  "leaf_KeyAt p i = Some k \<Longrightarrow> 0 \<le> i \<and> i < int (length (l_key_array p)) \<and> k = l_key_array p ! nat i"
  by (auto simp: leaf_KeyAt_def dest!: read_at_SomeD)

lemma leaf_ValueAt_SomeD:
  "leaf_ValueAt p i = Some v \<Longrightarrow> 0 \<le> i \<and> i < int (length (l_rid_array p)) \<and> v = l_rid_array p ! nat i"
  by (auto simp: leaf_ValueAt_def dest!: read_at_SomeD)

lemma leaf_SetKeyAt_SomeD:
  "leaf_SetKeyAt p i k = Some p' \<Longrightarrow>
     0 \<le> i \<and> i < int (length (l_key_array p)) \<and> p' = p\<lparr>l_key_array := (l_key_array p)[nat i := k]\<rparr>"
  by (auto simp: leaf_SetKeyAt_def dest!: write_at_SomeD)

lemma leaf_SetValueAt_SomeD:
  "leaf_SetValueAt p i v = Some p' \<Longrightarrow>
     0 \<le> i \<and> i < int (length (l_rid_array p)) \<and> p' = p\<lparr>l_rid_array := (l_rid_array p)[nat i := v]\<rparr>"
  by (auto simp: leaf_SetValueAt_def dest!: write_at_SomeD)

lemma leaf_copy_SomeD:
  assumes "leaf_copy src off i dst = Some dst'"
  shows "0 \<le> i \<and> 0 \<le> i + off \<and>
     i + off < int (length (l_key_array src)) \<and> i + off < int (length (l_rid_array src)) \<and>
     i < int (length (l_key_array dst)) \<and> i < int (length (l_rid_array dst)) \<and>
     dst' = dst\<lparr>l_key_array := (l_key_array dst)[nat i := l_key_array src ! nat (i + off)],
                l_rid_array := (l_rid_array dst)[nat i := l_rid_array src ! nat (i + off)]\<rparr>"
  using assms
  by (auto simp: leaf_copy_def split: bind_splits
      dest!: leaf_KeyAt_SomeD leaf_ValueAt_SomeD leaf_SetKeyAt_SomeD leaf_SetValueAt_SomeD)

lemma leaf_shift_SomeD:
  assumes "leaf_shift i p = Some p'"
  shows "1 \<le> i \<and> i < int (length (l_key_array p)) \<and> i < int (length (l_rid_array p)) \<and>
     p' = p\<lparr>l_key_array := (l_key_array p)[nat i := l_key_array p ! nat (i - 1)],
            l_rid_array := (l_rid_array p)[nat i := l_rid_array p ! nat (i - 1)]\<rparr>"
  using assms
  by (auto simp: leaf_shift_def split: bind_splits
      dest!: leaf_KeyAt_SomeD leaf_ValueAt_SomeD leaf_SetKeyAt_SomeD leaf_SetValueAt_SomeD)

lemma for_each_leaf_copy:
  assumes "for_each is (leaf_copy src off) dst = Some dst'"
  shows "l_size dst' = l_size dst \<and> l_max_size dst' = l_max_size dst \<and>
     l_next_page_id dst' = l_next_page_id dst \<and>
     length (l_key_array dst') = length (l_key_array dst) \<and>
     length (l_rid_array dst') = length (l_rid_array dst) \<and>
     (\<forall>j. l_key_array dst' ! j =
        (if int j \<in> set is then l_key_array src ! nat (int j + off) else l_key_array dst ! j)) \<and>
     (\<forall>j. l_rid_array dst' ! j =
        (if int j \<in> set is then l_rid_array src ! nat (int j + off) else l_rid_array dst ! j)) \<and>
     (\<forall>i\<in>set is. 0 \<le> i \<and> i < int (length (l_key_array dst)) \<and>
        i < int (length (l_rid_array dst)))"
  using assms
proof (induction "is" arbitrary: dst)
  case Nil
  then show ?case by simp
next
  case (Cons i "is")
  from Cons.prems obtain d1 where
    d1: "leaf_copy src off i dst = Some d1" and rest: "for_each is (leaf_copy src off) d1 = Some dst'"
    by (auto split: option.splits)
  note s = leaf_copy_SomeD [OF d1]
  note ih = Cons.IH [OF rest]
  have k: "l_key_array d1 ! j = (if int j = i then l_key_array src ! nat (i + off) else l_key_array dst ! j)" for j
    using s by (cases "int j = i") (auto simp: nth_list_update)
  have v: "l_rid_array d1 ! j = (if int j = i then l_rid_array src ! nat (i + off) else l_rid_array dst ! j)" for j
    using s by (cases "int j = i") (auto simp: nth_list_update)
  show ?case
    using ih s by (auto simp: k v)
qed


lemma for_each_leaf_shift:
  assumes "for_each (rev [lo + 1..hi]) leaf_shift p = Some p'"
  shows "l_size p' = l_size p \<and> l_max_size p' = l_max_size p \<and>
     l_next_page_id p' = l_next_page_id p \<and>
     length (l_key_array p') = length (l_key_array p) \<and>
     length (l_rid_array p') = length (l_rid_array p) \<and>
     (\<forall>j. l_key_array p' ! j =
        (if lo < int j \<and> int j \<le> hi then l_key_array p ! (j - 1) else l_key_array p ! j)) \<and>
     (\<forall>j. l_rid_array p' ! j =
        (if lo < int j \<and> int j \<le> hi then l_rid_array p ! (j - 1) else l_rid_array p ! j))"
  using assms
proof (induction "nat (hi - lo)" arbitrary: hi p)
  case 0
  then have "[lo + 1..hi] = []" by simp
  with "0.prems" have "p' = p" by simp
  with 0 show ?case by auto
next
  case (Suc n)
  then have le: "lo + 1 \<le> hi" by simp
  then have "rev [lo + 1..hi] = hi # rev [lo + 1..hi - 1]"
    by (simp add: upto_rec2)
  with Suc.prems obtain p1 where
    p1: "leaf_shift hi p = Some p1" and rest: "for_each (rev [lo + 1..hi - 1]) leaf_shift p1 = Some p'"
    by (auto split: option.splits)
  note s = leaf_shift_SomeD [OF p1]
  have n: "n = nat (hi - 1 - lo)" using Suc.hyps(2) by simp
  note ih = Suc.hyps(1) [OF n rest]
  have k: "l_key_array p1 ! j = (if int j = hi then l_key_array p ! nat (hi - 1) else l_key_array p ! j)" for j
    using s by (cases "int j = hi") (auto simp: nth_list_update)
  have v: "l_rid_array p1 ! j = (if int j = hi then l_rid_array p ! nat (hi - 1) else l_rid_array p ! j)" for j
    using s by (cases "int j = hi") (auto simp: nth_list_update)
  have pred: "int j = hi \<Longrightarrow> nat (hi - 1) = j - 1" for j by auto
  have neq: "lo < int j \<Longrightarrow> int j \<le> hi - 1 \<Longrightarrow> int (j - 1) \<noteq> hi" for j by auto
  show ?case
    using ih s le by (auto simp: k v pred neq)
qed


subsection \<open>The split of a leaf\<close>

text \<open>
  The two halves of a split, slot by slot, make up the old entries with the new one
  inserted at its position.
\<close>

lemma split_lists_eq:
  fixes K :: "'a list"
  assumes lens: "length KL = length K" "s \<le> length KN" "m \<le> length K"
    and sizes: "f + s = Suc m" "1 \<le> f" "f \<le> m" "i \<le> m"
    and A: "i < f \<Longrightarrow> (\<forall>j<s. KN ! j = K ! (j + f - 1)) \<and>
              (\<forall>j<f. KL ! j = (if j < i then K ! j else if j = i then k else K ! (j - 1)))"
    and B: "f \<le> i \<Longrightarrow> (\<forall>j<f. KL ! j = K ! j) \<and>
              (\<forall>j<s. KN ! j = (if j + f < i then K ! (j + f) else if j + f = i then k else K ! (j + f - 1)))"
  shows "take f KL @ take s KN = take i K @ [k] @ drop i (take m K)"
proof (rule nth_equalityI)
  show "length (take f KL @ take s KN) = length (take i K @ [k] @ drop i (take m K))"
    using lens sizes by simp
next
  fix j assume "j < length (take f KL @ take s KN)"
  then have j: "j < Suc m" using lens sizes by simp
  show "(take f KL @ take s KN) ! j = (take i K @ [k] @ drop i (take m K)) ! j"
  proof (cases "i < f")
    case True
    note a = A [OF True]
    show ?thesis
    proof (cases "j < f")
      case True
      with a \<open>i < f\<close> lens sizes j show ?thesis
        by (auto simp: nth_append nth_Cons')
    next
      case False
      then have "j - f < s" using j sizes by simp
      with a False \<open>i < f\<close> lens sizes j show ?thesis
        by (auto simp: nth_append nth_Cons')
    qed
  next
    case False
    then have fi: "f \<le> i" by simp
    note b = B [OF fi]
    show ?thesis
    proof (cases "j < f")
      case True
      with b fi lens sizes j show ?thesis
        by (auto simp: nth_append nth_Cons')
    next
      case False
      then have "j - f < s" using j sizes by simp
      with b False fi lens sizes j show ?thesis
        by (auto simp: nth_append nth_Cons')
    qed
  qed
qed


lemma leaf_redistribute_upper:
  assumes r: "leaf_redistribute lp np (int i) (int f) (int s) k v = Some (L, N)"
    and fi: "f \<le> i"
  shows "\<exists>n1 n2 n3. for_each [0..int i - int f - 1] (leaf_copy lp (int f)) np = Some n1 \<and>
    leaf_SetKeyAt n1 (int i - int f) k = Some n2 \<and>
    leaf_SetValueAt n2 (int i - int f) v = Some n3 \<and>
    for_each [int i - int f + 1..int s - 1] (leaf_copy lp (int f - 1)) n3 = Some N \<and>
    L = lp"
proof -
  have "\<not> int i < int f" using fi by simp
  with r have "(for_each [0..int i - int f - 1] (leaf_copy lp (int f)) np \<bind> (\<lambda>new_leaf_page.
          leaf_SetKeyAt new_leaf_page (int i - int f) k \<bind> (\<lambda>new_leaf_page.
          leaf_SetValueAt new_leaf_page (int i - int f) v \<bind> (\<lambda>new_leaf_page.
          for_each [int i - int f + 1..int s - 1]
              (leaf_copy lp (int f - 1)) new_leaf_page \<bind> (\<lambda>new_leaf_page.
          Some (lp, new_leaf_page)))))) = Some (L, N)"
    unfolding leaf_redistribute_def by (simp only: if_False)
  then show ?thesis
    by (elim bind_eq_Some_conv [THEN iffD1, elim_format] exE conjE) auto
qed


lemma leaf_redistribute_SomeD:
  assumes r: "leaf_redistribute lp np (int i) (int f) (int s) k v = Some (L, N)"
    and sizes: "f + s = Suc m" "1 \<le> f" "f \<le> m" "i \<le> m"
    and lens: "m \<le> length (l_key_array lp)" "m \<le> length (l_rid_array lp)"
  shows "l_size L = l_size lp \<and> l_max_size L = l_max_size lp \<and>
     l_next_page_id L = l_next_page_id lp \<and>
     l_size N = l_size np \<and> l_max_size N = l_max_size np \<and>
     l_next_page_id N = l_next_page_id np \<and>
     take f (l_key_array L) @ take s (l_key_array N) =
       take i (l_key_array lp) @ [k] @ drop i (take m (l_key_array lp)) \<and>
     take f (l_rid_array L) @ take s (l_rid_array N) =
       take i (l_rid_array lp) @ [v] @ drop i (take m (l_rid_array lp))"
proof (cases "i < f")
  case True
  with r obtain p1 p2 where
    n: "for_each [0..int s - 1] (leaf_copy lp (int f - 1)) np = Some N" and
    p1: "for_each (rev [int i + 1..int f - 1]) leaf_shift lp = Some p1" and
    p2: "leaf_SetKeyAt p1 (int i) k = Some p2" and
    p3: "leaf_SetValueAt p2 (int i) v = Some L"
    by (auto simp: leaf_redistribute_def split: bind_splits)
  note cn = for_each_leaf_copy [OF n]
  note sh = for_each_leaf_shift [OF p1]
  note k2 = leaf_SetKeyAt_SomeD [OF p2]
  note v3 = leaf_SetValueAt_SomeD [OF p3]
  have s1: "1 \<le> s" using sizes by simp
  have sN: "s \<le> length (l_key_array N)" "s \<le> length (l_rid_array N)"
    using cn s1 by (auto dest!: bspec [where x = "int s - 1"])
  have KN: "\<forall>j<s. l_key_array N ! j = l_key_array lp ! (j + f - 1)"
    using cn sizes by (auto simp: nat_add_distrib nat_diff_distrib' intro!: arg_cong [where f = "nth _"])
  have VN: "\<forall>j<s. l_rid_array N ! j = l_rid_array lp ! (j + f - 1)"
    using cn sizes by (auto simp: nat_add_distrib nat_diff_distrib' intro!: arg_cong [where f = "nth _"])
  have KL: "\<forall>j<f. l_key_array L ! j =
      (if j < i then l_key_array lp ! j else if j = i then k else l_key_array lp ! (j - 1))"
    using sh k2 v3 True sizes lens by (auto simp: nth_list_update)
  have VL: "\<forall>j<f. l_rid_array L ! j =
      (if j < i then l_rid_array lp ! j else if j = i then v else l_rid_array lp ! (j - 1))"
    using sh k2 v3 True sizes lens by (auto simp: nth_list_update)
  have lenL: "length (l_key_array L) = length (l_key_array lp)"
    "length (l_rid_array L) = length (l_rid_array lp)"
    using sh k2 v3 by auto
  have keys: "take f (l_key_array L) @ take s (l_key_array N) =
       take i (l_key_array lp) @ [k] @ drop i (take m (l_key_array lp))"
    using True KN KL by (intro split_lists_eq [OF lenL(1) sN(1) lens(1) sizes]) auto
  have vals: "take f (l_rid_array L) @ take s (l_rid_array N) =
       take i (l_rid_array lp) @ [v] @ drop i (take m (l_rid_array lp))"
    using True VN VL by (intro split_lists_eq [OF lenL(2) sN(2) lens(2) sizes]) auto
  show ?thesis
    using keys vals cn sh k2 v3 by auto
next
  case False
  then have fi: "f \<le> i" by simp
  from leaf_redistribute_upper [OF r fi] obtain n1 n2 n3 where
    n1: "for_each [0..int i - int f - 1] (leaf_copy lp (int f)) np = Some n1" and
    n2: "leaf_SetKeyAt n1 (int i - int f) k = Some n2" and
    n3: "leaf_SetValueAt n2 (int i - int f) v = Some n3" and
    n4: "for_each [int i - int f + 1..int s - 1] (leaf_copy lp (int f - 1)) n3 = Some N" and
    L: "L = lp"
    by blast
  note c1 = for_each_leaf_copy [OF n1]
  note k2 = leaf_SetKeyAt_SomeD [OF n2]
  note v3 = leaf_SetValueAt_SomeD [OF n3]
  note c4 = for_each_leaf_copy [OF n4]
  have sN: "s \<le> length (l_key_array N)" "s \<le> length (l_rid_array N)"
  proof -
    show "s \<le> length (l_key_array N)"
    proof (cases "i + 1 < f + s")
      case True
      then have "int s - 1 \<in> set [int i - int f + 1..int s - 1]" by simp
      with c4 have "int s - 1 < int (length (l_key_array n3))" by blast
      with c4 show ?thesis by simp
    next
      case False
      with sizes fi have "int i - int f = int s - 1" by simp
      with k2 v3 c4 show ?thesis by auto
    qed
    show "s \<le> length (l_rid_array N)"
    proof (cases "i + 1 < f + s")
      case True
      then have "int s - 1 \<in> set [int i - int f + 1..int s - 1]" by simp
      with c4 have "int s - 1 < int (length (l_rid_array n3))" by blast
      with c4 show ?thesis by simp
    next
      case False
      with sizes fi have "int i - int f = int s - 1" by simp
      with k2 v3 c4 show ?thesis by auto
    qed
  qed
  have nat1: "nat (int i - int f) = i - f" by simp
  have bnd: "i - f < length (l_key_array n1)" "i - f < length (l_rid_array n2)"
    using k2 v3 fi by linarith+
  have n3k: "l_key_array n3 = (l_key_array n1)[i - f := k]"
    and n3v: "l_rid_array n3 = (l_rid_array n2)[i - f := v]"
    using k2 v3 by (simp_all add: nat1)
  have KN: "\<forall>j<s. l_key_array N ! j =
      (if j + f < i then l_key_array lp ! (j + f) else if j + f = i then k
       else l_key_array lp ! (j + f - 1))"
  proof (intro allI impI)
    fix j assume j: "j < s"
    consider "j + f < i" | "j + f = i" | "i < j + f" by linarith
    then show "l_key_array N ! j =
      (if j + f < i then l_key_array lp ! (j + f) else if j + f = i then k
       else l_key_array lp ! (j + f - 1))"
    proof cases
      case 1
      then have a: "\<not> int i - int f + 1 \<le> int j" "0 \<le> int j \<and> int j \<le> int i - int f - 1"
        "j \<noteq> i - f" by auto
      have "l_key_array N ! j = l_key_array n3 ! j" using c4 a(1) by simp
      also have "\<dots> = l_key_array n1 ! j" using n3k a(3) by simp
      also have "\<dots> = l_key_array lp ! nat (int j + int f)" using c1 a(2) by simp
      also have "nat (int j + int f) = j + f" by simp
      finally show ?thesis using 1 by simp
    next
      case 2
      then have a: "\<not> int i - int f + 1 \<le> int j" "j = i - f" by auto
      have "l_key_array N ! j = l_key_array n3 ! j" using c4 a(1) by simp
      also have "\<dots> = k" using n3k bnd a(2) by simp
      finally show ?thesis using 2 by simp
    next
      case 3
      then have a: "int i - int f + 1 \<le> int j \<and> int j \<le> int s - 1" using j by auto
      have "l_key_array N ! j = l_key_array lp ! nat (int j + (int f - 1))" using c4 a by simp
      also have "nat (int j + (int f - 1)) = j + f - 1" using sizes by auto
      finally show ?thesis using 3 by simp
    qed
  qed
  have VN: "\<forall>j<s. l_rid_array N ! j =
      (if j + f < i then l_rid_array lp ! (j + f) else if j + f = i then v
       else l_rid_array lp ! (j + f - 1))"
  proof (intro allI impI)
    fix j assume j: "j < s"
    consider "j + f < i" | "j + f = i" | "i < j + f" by linarith
    then show "l_rid_array N ! j =
      (if j + f < i then l_rid_array lp ! (j + f) else if j + f = i then v
       else l_rid_array lp ! (j + f - 1))"
    proof cases
      case 1
      then have a: "\<not> int i - int f + 1 \<le> int j" "0 \<le> int j \<and> int j \<le> int i - int f - 1"
        "j \<noteq> i - f" by auto
      have "l_rid_array N ! j = l_rid_array n3 ! j" using c4 a(1) by simp
      also have "\<dots> = l_rid_array n1 ! j" using n3v k2 a(3) by simp
      also have "\<dots> = l_rid_array lp ! nat (int j + int f)" using c1 a(2) by simp
      also have "nat (int j + int f) = j + f" by simp
      finally show ?thesis using 1 by simp
    next
      case 2
      then have a: "\<not> int i - int f + 1 \<le> int j" "j = i - f" by auto
      have "l_rid_array N ! j = l_rid_array n3 ! j" using c4 a(1) by simp
      also have "\<dots> = v" using n3v bnd a(2) by simp
      finally show ?thesis using 2 by simp
    next
      case 3
      then have a: "int i - int f + 1 \<le> int j \<and> int j \<le> int s - 1" using j by auto
      have "l_rid_array N ! j = l_rid_array lp ! nat (int j + (int f - 1))" using c4 a by simp
      also have "nat (int j + (int f - 1)) = j + f - 1" using sizes by auto
      finally show ?thesis using 3 by simp
    qed
  qed
  have keys: "take f (l_key_array L) @ take s (l_key_array N) =
       take i (l_key_array lp) @ [k] @ drop i (take m (l_key_array lp))"
    using fi KN L by (intro split_lists_eq [OF _ sN(1) lens(1) sizes]) auto
  have vals: "take f (l_rid_array L) @ take s (l_rid_array N) =
       take i (l_rid_array lp) @ [v] @ drop i (take m (l_rid_array lp))"
    using fi VN L by (intro split_lists_eq [OF _ sN(2) lens(2) sizes]) auto
  show ?thesis
    using keys vals c1 k2 v3 c4 L by auto
qed


lemma sdiv_two_nat: "(int m + 2) sdiv 2 = int ((m + 2) div 2)"
  by (simp add: signed_divide_int_def zdiv_int)

lemma split_leaf_SomeD:
  assumes sp: "split_leaf t lid lp (int i) k v = Some (t1, ikey, nid)"
    and M: "l_max_size lp = int m" "1 \<le> m" "i \<le> m"
    and lens: "m \<le> length (l_key_array lp)" "m \<le> length (l_rid_array lp)"
    and lid: "lid < int (length (pages t))"
  shows "nid = int (length (pages t)) \<and>
    length (pages t1) = Suc (length (pages t)) \<and>
    (\<forall>pid. pid \<noteq> lid \<longrightarrow> pid \<noteq> nid \<longrightarrow> ReadPage t1 pid = ReadPage t pid) \<and>
    (\<exists>L N. ReadPage t1 lid = Some (Leaf L) \<and> ReadPage t1 nid = Some (Leaf N) \<and>
       l_size L = int ((m + 2) div 2) \<and> l_size N = int (Suc m - (m + 2) div 2) \<and>
       l_next_page_id N = l_next_page_id lp \<and> l_next_page_id L = nid \<and>
       ikey = l_key_array N ! 0 \<and>
       leaf_keys L @ leaf_keys N =
         take i (l_key_array lp) @ [k] @ drop i (take m (l_key_array lp)) \<and>
       leaf_values L @ leaf_values N =
         take i (l_rid_array lp) @ [v] @ drop i (take m (l_rid_array lp)))"
proof -
  define f where "f = (m + 2) div 2"
  define s where "s = Suc m - f"
  define np :: "('a, 'b) leaf_page" where
    "np = \<lparr>l_size = int s, l_max_size = leaf_max_size t, l_next_page_id = l_next_page_id lp,
           l_key_array = replicate (leaf_slot_cnt t) 0, l_rid_array = replicate (leaf_slot_cnt t) 0\<rparr>"
  define lp1 where "lp1 = lp\<lparr>l_size := int f, l_next_page_id := int (length (pages t))\<rparr>"
  define tn :: "('a, 'b) bplustree" where
    "tn = t\<lparr>pages := pages t @
       [Leaf \<lparr>l_size = 0, l_max_size = leaf_max_size t, l_next_page_id = INVALID_PAGE_ID,
              l_key_array = replicate (leaf_slot_cnt t) 0,
              l_rid_array = replicate (leaf_slot_cnt t) 0\<rparr>]\<rparr>"
  have sizes: "f + s = Suc m" "1 \<le> f" "f \<le> m"
    using M by (auto simp: f_def s_def)
  have fs: "(l_max_size lp + 2) sdiv 2 = int f" "l_max_size lp + 1 - int f = int s"
    using M sizes by (auto simp: sdiv_two_nat f_def s_def)
  have "\<exists>L N ta. leaf_redistribute lp1 np (int i) (int f) (int s) k v = Some (L, N) \<and>
    leaf_KeyAt N 0 = Some ikey \<and>
    WritePage tn lid (Leaf L) = Some ta \<and>
    WritePage ta (int (length (pages t))) (Leaf N) = Some t1 \<and>
    nid = int (length (pages t))"
    using sp
    unfolding split_leaf_def NewLeafPage_def Let_def fs prod.case np_def lp1_def tn_def
    apply (elim bind_eq_Some_conv [THEN iffD1, elim_format] exE conjE)
    apply (simp split: prod.splits)
    apply (elim bind_eq_Some_conv [THEN iffD1, elim_format] exE conjE)
    apply simp
    done
  then obtain L N ta where
    r: "leaf_redistribute lp1 np (int i) (int f) (int s) k v = Some (L, N)" and
    ik: "leaf_KeyAt N 0 = Some ikey" and
    w1: "WritePage tn lid (Leaf L) = Some ta" and
    w2: "WritePage ta (int (length (pages t))) (Leaf N) = Some t1" and
    nid: "nid = int (length (pages t))"
    by blast
  have lens1: "m \<le> length (l_key_array lp1)" "m \<le> length (l_rid_array lp1)"
    using lens by (simp_all add: lp1_def)
  note rd = leaf_redistribute_SomeD [OF r sizes M(3) lens1]
  note a1 = WritePage_SomeD [OF w1]
  note a2 = WritePage_SomeD [OF w2]
  have lid0: "0 \<le> lid" using a1 by simp
  have nl: "nat lid < length (pages t)" using lid lid0 by simp
  have pa: "pages ta = (pages t)[nat lid := Leaf L] @
       [Leaf \<lparr>l_size = 0, l_max_size = leaf_max_size t, l_next_page_id = INVALID_PAGE_ID,
              l_key_array = replicate (leaf_slot_cnt t) 0,
              l_rid_array = replicate (leaf_slot_cnt t) 0\<rparr>]"
    using a1 nl by (simp add: tn_def list_update_append1)
  from a2 have "pages t1 = (pages ta)[length ((pages t)[nat lid := Leaf L]) := Leaf N]"
    by simp
  then have pg: "pages t1 = (pages t)[nat lid := Leaf L] @ [Leaf N]"
    unfolding pa by (simp only: list_update_length)
  have rl: "ReadPage t1 lid = Some (Leaf L)"
    using nl lid0 by (simp add: ReadPage_def read_at_def pg nth_append)
  have rn: "ReadPage t1 nid = Some (Leaf N)"
    using nid by (simp add: ReadPage_def read_at_def pg nth_append)
  have frame: "ReadPage t1 pid = ReadPage t pid" if "pid \<noteq> lid" "pid \<noteq> nid" for pid
  proof (cases "0 \<le> pid \<and> pid < int (length (pages t))")
    case True
    then have "nat pid \<noteq> nat lid" "nat pid < length (pages t)" using that lid0 by auto
    with True show ?thesis
      by (simp add: ReadPage_def read_at_def pg nth_append)
  next
    case False
    with that nid show ?thesis
      by (auto simp: ReadPage_def read_at_def pg)
  qed
  have sz: "l_size L = int f" "l_size N = int s"
    "l_next_page_id N = l_next_page_id lp" "l_next_page_id L = nid"
    using rd nid by (simp_all add: lp1_def np_def)
  have rdk: "take f (l_key_array L) @ take s (l_key_array N) =
      take i (l_key_array lp) @ [k] @ drop i (take m (l_key_array lp))"
    and rdv: "take f (l_rid_array L) @ take s (l_rid_array N) =
      take i (l_rid_array lp) @ [v] @ drop i (take m (l_rid_array lp))"
    using rd by (simp_all add: lp1_def)
  have kk: "leaf_keys L @ leaf_keys N = take i (l_key_array lp) @ [k] @ drop i (take m (l_key_array lp))"
    unfolding leaf_keys_def sz using rdk by simp
  have vv: "leaf_values L @ leaf_values N = take i (l_rid_array lp) @ [v] @ drop i (take m (l_rid_array lp))"
    unfolding leaf_values_def sz using rdv by simp
  have ik': "ikey = l_key_array N ! 0"
    using leaf_KeyAt_SomeD [OF ik] by simp
  show ?thesis
    using nid rl rn sz kk vv ik' frame pg
    by (auto simp: f_def s_def)
qed


subsection \<open>The split of a leaf runs to its end\<close>

lemma leaf_copy_eq:
  assumes "0 \<le> i" "0 \<le> i + off"
    and "i + off < int (length (l_key_array src))" "i + off < int (length (l_rid_array src))"
    and "i < int (length (l_key_array dst))" "i < int (length (l_rid_array dst))"
  shows "leaf_copy src off i dst =
     Some (dst\<lparr>l_key_array := (l_key_array dst)[nat i := l_key_array src ! nat (i + off)],
                l_rid_array := (l_rid_array dst)[nat i := l_rid_array src ! nat (i + off)]\<rparr>)"
  using assms
  by (simp add: leaf_copy_def leaf_KeyAt_def leaf_SetKeyAt_def leaf_ValueAt_def
      leaf_SetValueAt_def read_at_def write_at_def)

lemma leaf_shift_eq:
  assumes "1 \<le> i" "i < int (length (l_key_array p))" "i < int (length (l_rid_array p))"
  shows "leaf_shift i p =
     Some (p\<lparr>l_key_array := (l_key_array p)[nat i := l_key_array p ! nat (i - 1)],
             l_rid_array := (l_rid_array p)[nat i := l_rid_array p ! nat (i - 1)]\<rparr>)"
  using assms
  by (simp add: leaf_shift_def leaf_KeyAt_def leaf_SetKeyAt_def leaf_ValueAt_def
      leaf_SetValueAt_def read_at_def write_at_def)

lemma for_each_leaf_copy_total:
  assumes "\<forall>i\<in>set is. 0 \<le> i \<and> 0 \<le> i + off \<and>
      i + off < int (length (l_key_array src)) \<and> i + off < int (length (l_rid_array src)) \<and>
      i < int (length (l_key_array dst)) \<and> i < int (length (l_rid_array dst))"
  shows "\<exists>dst'. for_each is (leaf_copy src off) dst = Some dst'"
  using assms
proof (induction "is" arbitrary: dst)
  case Nil
  then show ?case by simp
next
  case (Cons i "is")
  let ?d = "dst\<lparr>l_key_array := (l_key_array dst)[nat i := l_key_array src ! nat (i + off)],
                l_rid_array := (l_rid_array dst)[nat i := l_rid_array src ! nat (i + off)]\<rparr>"
  have "leaf_copy src off i dst = Some ?d"
    using Cons.prems by (intro leaf_copy_eq) simp_all
  moreover have "\<exists>dst'. for_each is (leaf_copy src off) ?d = Some dst'"
    using Cons.prems by (intro Cons.IH) simp
  ultimately show ?case by simp
qed

lemma for_each_leaf_shift_total:
  assumes "\<forall>i\<in>set is. 1 \<le> i \<and> i < int (length (l_key_array p)) \<and> i < int (length (l_rid_array p))"
  shows "\<exists>p'. for_each is leaf_shift p = Some p'"
  using assms
proof (induction "is" arbitrary: p)
  case Nil
  then show ?case by simp
next
  case (Cons i "is")
  let ?p = "p\<lparr>l_key_array := (l_key_array p)[nat i := l_key_array p ! nat (i - 1)],
             l_rid_array := (l_rid_array p)[nat i := l_rid_array p ! nat (i - 1)]\<rparr>"
  have "leaf_shift i p = Some ?p"
    using Cons.prems by (intro leaf_shift_eq) simp_all
  moreover have "\<exists>p'. for_each is leaf_shift ?p = Some p'"
    using Cons.prems by (intro Cons.IH) simp
  ultimately show ?case by simp
qed

lemma leaf_SetKeyAt_eq:
  "0 \<le> i \<Longrightarrow> i < int (length (l_key_array p)) \<Longrightarrow>
     leaf_SetKeyAt p i k = Some (p\<lparr>l_key_array := (l_key_array p)[nat i := k]\<rparr>)"
  by (simp add: leaf_SetKeyAt_def write_at_def)

lemma leaf_SetValueAt_eq:
  "0 \<le> i \<Longrightarrow> i < int (length (l_rid_array p)) \<Longrightarrow>
     leaf_SetValueAt p i v = Some (p\<lparr>l_rid_array := (l_rid_array p)[nat i := v]\<rparr>)"
  by (simp add: leaf_SetValueAt_def write_at_def)

lemma leaf_redistribute_total:
  assumes sizes: "f + s = Suc m" "1 \<le> f" "f \<le> m" "i \<le> m"
    and lens: "m \<le> length (l_key_array lp)" "m \<le> length (l_rid_array lp)"
    and room: "s \<le> length (l_key_array np)" "s \<le> length (l_rid_array np)"
  shows "\<exists>r. leaf_redistribute lp np (int i) (int f) (int s) k v = Some r"
proof (cases "i < f")
  case True
  have "\<exists>n1. for_each [0..int s - 1] (leaf_copy lp (int f - 1)) np = Some n1"
    using sizes lens room by (intro for_each_leaf_copy_total) auto
  then obtain n1 where n1: "for_each [0..int s - 1] (leaf_copy lp (int f - 1)) np = Some n1" ..
  have "\<exists>p1. for_each (rev [int i + 1..int f - 1]) leaf_shift lp = Some p1"
    using sizes lens by (intro for_each_leaf_shift_total) auto
  then obtain p1 where p1: "for_each (rev [int i + 1..int f - 1]) leaf_shift lp = Some p1" ..
  note l1 = for_each_leaf_shift [OF p1]
  have "leaf_SetKeyAt p1 (int i) k = Some (p1\<lparr>l_key_array := (l_key_array p1)[nat (int i) := k]\<rparr>)"
    using l1 True sizes lens by (intro leaf_SetKeyAt_eq) simp_all
  moreover have "leaf_SetValueAt (p1\<lparr>l_key_array := (l_key_array p1)[nat (int i) := k]\<rparr>) (int i) v =
      Some (p1\<lparr>l_key_array := (l_key_array p1)[nat (int i) := k],
               l_rid_array := (l_rid_array p1)[nat (int i) := v]\<rparr>)"
    using l1 True sizes lens by (simp add: leaf_SetValueAt_def write_at_def)
  ultimately show ?thesis
    using True n1 p1 by (simp add: leaf_redistribute_def)
next
  case False
  then have fi: "f \<le> i" by simp
  have "\<exists>n1. for_each [0..int i - int f - 1] (leaf_copy lp (int f)) np = Some n1"
    using sizes lens room fi by (intro for_each_leaf_copy_total) auto
  then obtain n1 where n1: "for_each [0..int i - int f - 1] (leaf_copy lp (int f)) np = Some n1" ..
  note l1 = for_each_leaf_copy [OF n1]
  define n2 where "n2 = n1\<lparr>l_key_array := (l_key_array n1)[nat (int i - int f) := k]\<rparr>"
  define n3 where "n3 = n2\<lparr>l_rid_array := (l_rid_array n2)[nat (int i - int f) := v]\<rparr>"
  have s2: "leaf_SetKeyAt n1 (int i - int f) k = Some n2"
    unfolding n2_def using l1 fi sizes room by (intro leaf_SetKeyAt_eq) simp_all
  have s3: "leaf_SetValueAt n2 (int i - int f) v = Some n3"
    unfolding n3_def using l1 fi sizes room by (intro leaf_SetValueAt_eq) (simp_all add: n2_def)
  have "\<exists>N. for_each [int i - int f + 1..int s - 1] (leaf_copy lp (int f - 1)) n3 = Some N"
    using sizes lens room fi l1 by (intro for_each_leaf_copy_total) (auto simp: n3_def n2_def)
  then obtain N where N: "for_each [int i - int f + 1..int s - 1] (leaf_copy lp (int f - 1)) n3 = Some N" ..
  show ?thesis
    using False n1 s2 s3 N by (simp add: leaf_redistribute_def)
qed

lemma split_leaf_total:
  fixes t :: "('k::zero, 'v::zero) bplustree"
  assumes M: "l_max_size lp = int m" "1 \<le> m" "i \<le> m"
    and lens: "m \<le> length (l_key_array lp)" "m \<le> length (l_rid_array lp)"
    and lid: "0 \<le> lid" "lid < int (length (pages t))"
    and room: "Suc m - (m + 2) div 2 \<le> leaf_slot_cnt t"
  shows "\<exists>r. split_leaf t lid lp (int i) k v = Some r"
proof -
  define f where "f = (m + 2) div 2"
  define s where "s = Suc m - f"
  define np :: "('k, 'v) leaf_page" where
    "np = \<lparr>l_size = int s, l_max_size = leaf_max_size t, l_next_page_id = l_next_page_id lp,
           l_key_array = replicate (leaf_slot_cnt t) 0,
           l_rid_array = replicate (leaf_slot_cnt t) 0\<rparr>"
  define lp1 where "lp1 = lp\<lparr>l_size := int f, l_next_page_id := int (length (pages t))\<rparr>"
  have sizes: "f + s = Suc m" "1 \<le> f" "f \<le> m" "1 \<le> s"
    using M by (auto simp: f_def s_def)
  have fs: "(l_max_size lp + 2) sdiv 2 = int f" "l_max_size lp + 1 - int f = int s"
    using M sizes by (auto simp: sdiv_two_nat f_def s_def)
  have lens1: "m \<le> length (l_key_array lp1)" "m \<le> length (l_rid_array lp1)"
    using lens by (simp_all add: lp1_def)
  have room1: "s \<le> length (l_key_array np)" "s \<le> length (l_rid_array np)"
    using room by (simp_all add: np_def s_def f_def)
  from leaf_redistribute_total [OF sizes(1-3) M(3) lens1 room1, of k v]
  obtain L N where r: "leaf_redistribute lp1 np (int i) (int f) (int s) k v = Some (L, N)"
    by auto
  note rd = leaf_redistribute_SomeD [OF r sizes(1-3) M(3) lens1]
  have "length (take f (l_key_array L) @ take s (l_key_array N)) = Suc m"
    using rd lens1 M(3) by simp
  then have lenN: "0 < length (l_key_array N)"
    using sizes by (cases "l_key_array N") auto
  then have k0: "leaf_KeyAt N 0 = Some (l_key_array N ! 0)"
    by (simp add: leaf_KeyAt_def read_at_def)
  show ?thesis
    unfolding split_leaf_def NewLeafPage_def Let_def fs prod.case
    using r k0 lid by (simp add: np_def lp1_def WritePage_def write_at_def)
qed

subsection \<open>The insert position\<close>

lemma comparator_less [simp]: "comparator a b < 0 \<longleftrightarrow> a < b"
  by (simp add: comparator_def)

lemma comparator_eq [simp]: "comparator a b = 0 \<longleftrightarrow> a = b"
  by (simp add: comparator_def)

lemma comparator_ge [simp]: "0 \<le> comparator a b \<longleftrightarrow> b \<le> a"
  by (auto simp: comparator_def)

lemma comparator_le [simp]: "comparator a b \<le> 0 \<longleftrightarrow> a \<le> b"
  by (auto simp: comparator_def)

lemma comparator_greater [simp]: "0 < comparator a b \<longleftrightarrow> b < a"
  by (auto simp: comparator_def)

lemma index_search_SomeD:
  "index_search p key l r = Some res \<Longrightarrow>
     res = - 1 \<or>
     (l \<le> res - 1 \<and> res - 1 \<le> r \<and>
      (\<exists>km. leaf_KeyAt p (res - 1) = Some km \<and> km < key) \<and>
      (l_size p \<le> res \<or> (\<exists>kn. leaf_KeyAt p res = Some kn \<and> key \<le> kn)))"
proof (induction p key l r rule: index_search.induct)
  case (1 p key l r)
  show ?case
  proof (cases "l \<le> r")
    case False
    with "1.prems" show ?thesis by (simp add: index_search.simps [of p key l r])
  next
    case True
    let ?mid = "(l + r) div 2"
    have mid: "l \<le> ?mid" "?mid \<le> r" using True by auto
    from "1.prems" True obtain km where km: "leaf_KeyAt p ?mid = Some km"
      by (auto simp: index_search.simps [of p key l r] split: option.splits)
    show ?thesis
    proof (cases "km < key")
      case lt: True
      show ?thesis
      proof (cases "l_size p \<le> ?mid + 1")
        case True
        with "1.prems" \<open>l \<le> r\<close> km lt mid show ?thesis
          by (auto simp: index_search.simps [of p key l r])
      next
        case False
        with "1.prems" \<open>l \<le> r\<close> km lt obtain kn where kn: "leaf_KeyAt p (?mid + 1) = Some kn"
          by (auto simp: index_search.simps [of p key l r] split: option.splits)
        show ?thesis
        proof (cases "key \<le> kn")
          case True
          with "1.prems" \<open>l \<le> r\<close> km lt mid kn False show ?thesis
            by (auto simp: index_search.simps [of p key l r])
        next
          case ge: False
          with "1.prems" \<open>l \<le> r\<close> km lt kn False
          have "index_search p key (?mid + 1) r = Some res"
            by (simp add: index_search.simps [of p key l r])
          from "1.IH"(1) [OF \<open>l \<le> r\<close> km _ _ kn _ this] lt False ge mid show ?thesis
            by auto
        qed
      qed
    next
      case False
      with "1.prems" \<open>l \<le> r\<close> km
      have "index_search p key l (?mid - 1) = Some res"
        by (simp add: index_search.simps [of p key l r])
      from "1.IH"(2) [OF \<open>l \<le> r\<close> km _ this] False mid show ?thesis
        by auto
    qed
  qed
qed

lemma IndexBinarySearchLeaf_SomeD:
  assumes "IndexBinarySearchLeaf p key = Some res"
  shows "(res = 0 \<and> (\<exists>k0. leaf_KeyAt p 0 = Some k0 \<and> key < k0)) \<or> res = - 1 \<or>
     (1 \<le> res \<and> res \<le> l_size p \<and>
      (\<exists>km. leaf_KeyAt p (res - 1) = Some km \<and> km < key) \<and>
      (res = l_size p \<or> (\<exists>kn. leaf_KeyAt p res = Some kn \<and> key \<le> kn)))"
proof -
  from assms obtain k0 where k0: "leaf_KeyAt p 0 = Some k0"
    by (auto simp: IndexBinarySearchLeaf_def split: option.splits)
  show ?thesis
  proof (cases "key < k0")
    case True
    with assms k0 show ?thesis by (simp add: IndexBinarySearchLeaf_def)
  next
    case False
    with assms k0 have "index_search p key 0 (l_size p - 1) = Some res"
      by (simp add: IndexBinarySearchLeaf_def)
    from index_search_SomeD [OF this] show ?thesis by auto
  qed
qed

lemma insort_at:
  fixes k :: "'a::linorder"
  assumes "sorted_wrt (<) xs" "i \<le> length xs"
    and "i = 0 \<or> xs ! (i - 1) < k" and "i = length xs \<or> k < xs ! i"
  shows "insort k xs = take i xs @ [k] @ drop i xs"
  using assms
proof (induction xs arbitrary: i)
  case Nil
  then show ?case by simp
next
  case (Cons x xs)
  show ?case
  proof (cases i)
    case 0
    with Cons.prems show ?thesis by auto
  next
    case (Suc j)
    have xk: "x < k"
    proof (cases j)
      case 0
      with Suc Cons.prems show ?thesis by simp
    next
      case (Suc j')
      with \<open>i = Suc j\<close> Cons.prems have "x < xs ! j'" "xs ! j' < k" by auto
      then show ?thesis by simp
    qed
    have p1: "sorted_wrt (<) xs" "j \<le> length xs"
      using Cons.prems Suc by simp_all
    have p2: "j = 0 \<or> xs ! (j - 1) < k"
      using Cons.prems(3) Suc by (cases j) simp_all
    have p3: "j = length xs \<or> k < xs ! j"
      using Cons.prems(4) Suc by simp
    have "insort k xs = take j xs @ [k] @ drop j xs"
      using p1 p2 p3 by (rule Cons.IH)
    moreover have "\<not> k \<le> x" using xk by simp
    ultimately show ?thesis using Suc by simp
  qed
qed

text \<open>
  The insert search returns: it reads the slots below the size only, and it returns \<open>-1\<close>
  only for a key that is not greater than the key of slot 0.
\<close>

lemma index_search_total:
  assumes "0 \<le> l" "l \<le> r + 1" "r < l_size p" "0 < l_size p"
    and "l_size p \<le> int (length (l_key_array p))"
    and "0 < l \<longrightarrow> l < l_size p \<and> l_key_array p ! nat l < key"
    and "r + 1 < l_size p \<longrightarrow> key \<le> l_key_array p ! nat (r + 1)"
  shows "\<exists>res. index_search p key l r = Some res \<and> (res = - 1 \<longrightarrow> key \<le> l_key_array p ! 0)"
  using assms
proof (induction p key l r rule: index_search.induct)
  case (1 p key l r)
  note pr = "1.prems"
  show ?case
  proof (cases "l \<le> r")
    case False
    with pr(2) have lr: "l = r + 1" by simp
    have "l = 0"
    proof (rule ccontr)
      assume "l \<noteq> 0"
      with pr(1) have "0 < l" by simp
      with pr(6) have "l < l_size p" "l_key_array p ! nat l < key" by simp_all
      with pr(7) lr show False by simp
    qed
    with lr pr(4) pr(7) have "key \<le> l_key_array p ! 0" by simp
    with False show ?thesis by (simp add: index_search.simps [of p key l r])
  next
    case True
    let ?mid = "(l + r) div 2"
    have mid: "l \<le> ?mid" "?mid \<le> r" using True by auto
    have km: "leaf_KeyAt p ?mid = Some (l_key_array p ! nat ?mid)"
      using mid pr by (simp add: leaf_KeyAt_def read_at_def)
    show ?thesis
    proof (cases "l_key_array p ! nat ?mid < key")
      case lt: True
      then have c1: "comparator (l_key_array p ! nat ?mid) key < 0" by simp
      show ?thesis
      proof (cases "l_size p \<le> ?mid + 1")
        case True
        with \<open>l \<le> r\<close> km c1 mid pr(1) show ?thesis
          by (simp add: index_search.simps [of p key l r])
      next
        case False
        then have c2: "\<not> l_size p \<le> ?mid + 1" .
        have kn: "leaf_KeyAt p (?mid + 1) = Some (l_key_array p ! nat (?mid + 1))"
          using mid pr False by (simp add: leaf_KeyAt_def read_at_def)
        show ?thesis
        proof (cases "key \<le> l_key_array p ! nat (?mid + 1)")
          case True
          with \<open>l \<le> r\<close> km c1 c2 kn mid pr(1) show ?thesis
            by (simp add: index_search.simps [of p key l r])
        next
          case ge: False
          then have c3: "\<not> 0 \<le> comparator (l_key_array p ! nat (?mid + 1)) key" by simp
          have eq: "index_search p key l r = index_search p key (?mid + 1) r"
            using \<open>l \<le> r\<close> km c1 c2 kn c3 by (simp add: index_search.simps [of p key l r])
          have i1: "0 \<le> ?mid + 1" "?mid + 1 \<le> r + 1" using mid pr(1) by simp_all
          have i2: "0 < ?mid + 1 \<longrightarrow> ?mid + 1 < l_size p \<and> l_key_array p ! nat (?mid + 1) < key"
            using c2 ge by (simp add: not_le)
          from "1.IH"(1) [OF \<open>l \<le> r\<close> km c1 _ kn c3 i1 pr(3) pr(4) pr(5) i2 pr(7)] c2
          show ?thesis unfolding eq by simp
        qed
      qed
    next
      case False
      then have c1: "\<not> comparator (l_key_array p ! nat ?mid) key < 0" by simp
      have eq: "index_search p key l r = index_search p key l (?mid - 1)"
        using \<open>l \<le> r\<close> km c1 by (simp add: index_search.simps [of p key l r])
      have i1: "l \<le> ?mid - 1 + 1" "?mid - 1 < l_size p" using mid pr(3) by simp_all
      have i2: "?mid - 1 + 1 < l_size p \<longrightarrow> key \<le> l_key_array p ! nat (?mid - 1 + 1)"
        using False by (simp add: not_less)
      from "1.IH"(2) [OF \<open>l \<le> r\<close> km c1 pr(1) i1 pr(4) pr(5) pr(6) i2]
      show ?thesis unfolding eq by simp
    qed
  qed
qed

lemma IndexBinarySearchLeaf_total:
  assumes "0 < l_size p" "l_size p \<le> int (length (l_key_array p))"
    and "key \<noteq> l_key_array p ! 0"
  shows "\<exists>res. IndexBinarySearchLeaf p key = Some res \<and> res \<noteq> - 1"
proof -
  have k0: "leaf_KeyAt p 0 = Some (l_key_array p ! 0)"
    using assms by (cases "l_key_array p") (simp_all add: leaf_KeyAt_def read_at_def)
  show ?thesis
  proof (cases "key < l_key_array p ! 0")
    case True
    with k0 show ?thesis by (simp add: IndexBinarySearchLeaf_def)
  next
    case False
    have "\<exists>res. index_search p key 0 (l_size p - 1) = Some res \<and>
        (res = - 1 \<longrightarrow> key \<le> l_key_array p ! 0)"
      using assms by (intro index_search_total) simp_all
    with False assms(3) k0 show ?thesis
      by (auto simp: IndexBinarySearchLeaf_def)
  qed
qed

subsection \<open>The descent and the frame of the cascade\<close>

lemma Insert_descend_SomeD:
  "Insert_descend n t key page ws idxs = Some (Some (page', ws', idxs')) \<Longrightarrow>
     ReadPage t (hd ws) = Some page \<Longrightarrow> ws \<noteq> [] \<Longrightarrow>
     ReadPage t (hd ws') = Some page' \<and> ws' \<noteq> [] \<and> (\<exists>lp. page' = Leaf lp)"
proof (induction n t key page ws idxs rule: Insert_descend.induct)
  case (1 n t key leaf_page write_set indexes)
  then show ?case by auto
next
  case (2 t key internal_page write_set indexes)
  then show ?case by simp
next
  case (3 n t key internal_page write_set indexes)
  from "3.prems"(1) obtain index page_id page where
    a: "KeyBinarySearch (Internal internal_page :: ('a, 'b) page) key = Some index" "index \<noteq> - 1"
      "internal_ValueAt internal_page index = Some page_id" "ReadPage t page_id = Some page"
      "Insert_descend n t key page (page_id # write_set) (index # indexes) = Some (Some (page', ws', idxs'))"
    by (auto split: bind_splits if_splits)
  from "3.IH" [OF a(1) a(2) a(3) a(4) a(5)] a(4) show ?case by simp
qed


lemma WritePage_frame:
  assumes "WritePage t pid p = Some t'" "q \<noteq> pid"
  shows "ReadPage t' q = ReadPage t q"
proof -
  note w = WritePage_SomeD [OF assms(1)]
  show ?thesis
  proof (cases "0 \<le> q \<and> q < int (length (pages t))")
    case True
    then have "nat q \<noteq> nat pid" using assms(2) w by auto
    with True w show ?thesis by (simp add: ReadPage_def read_at_def)
  next
    case False
    with w show ?thesis by (auto simp: ReadPage_def read_at_def)
  qed
qed

lemma ReadPage_append:
  "ReadPage t q = Some p \<Longrightarrow> ReadPage (t\<lparr>pages := pages t @ ps\<rparr>) q = Some p"
  by (auto simp: ReadPage_def read_at_def nth_append split: if_splits)

lemma split_internal_frame:
  assumes sp: "split_internal t pid ip idx k c = Some (t', k', c')"
    and q: "ReadPage t q = Some pg" "q \<noteq> pid"
  shows "ReadPage t' q = Some pg"
proof -
  from sp obtain P N ta fresh where
    w1: "WritePage (t\<lparr>pages := pages t @ [Internal fresh]\<rparr>) pid (Internal P) = Some ta" and
    w2: "WritePage ta (int (length (pages t))) (Internal N) = Some t'"
    unfolding split_internal_def NewInternalPage_def Let_def prod.case
    apply (elim bind_eq_Some_conv [THEN iffD1, elim_format] exE conjE)
    apply (simp split: prod.splits)
    apply (elim bind_eq_Some_conv [THEN iffD1, elim_format] exE conjE)
    apply auto
    done
  from q have "q \<noteq> int (length (pages t))"
    by (auto dest!: ReadPage_SomeD)
  from WritePage_frame [OF w2 this] WritePage_frame [OF w1 q(2)] ReadPage_append [OF q(1)]
  show ?thesis by simp
qed

lemma cascade_frame:
  "cascade t ws idxs k c = Some (t', k', c', f) \<Longrightarrow> ReadPage t q = Some (Leaf lp) \<Longrightarrow>
     ReadPage t' q = Some (Leaf lp)"
proof (induction t ws idxs k c rule: cascade.induct)
  case (1 t indexes insert_key second_split_page_id)
  then show ?case by simp
next
  case (2 t internal_id write_set insert_key second_split_page_id)
  then show ?case by simp
next
  case (3 t internal_id write_set index indexes insert_key second_split_page_id)
  from "3.prems"(1) obtain page ip where
    rp: "ReadPage t internal_id = Some page" and ai: "AsInternal page = Some ip"
    by (auto simp: Let_def split: bind_splits)
  from ai have pg: "page = Internal ip"
    by (auto simp: AsInternal_def split: page.splits)
  with rp "3.prems"(2) have ne: "q \<noteq> internal_id" by auto
  show ?case
  proof (cases "i_size ip < i_max_size ip")
    case True
    with "3.prems"(1) rp ai obtain ip' where
      "WritePage t internal_id (Internal ip') = Some t'"
      by (auto simp: Let_def split: bind_splits)
    from WritePage_frame [OF this ne] "3.prems"(2) show ?thesis by simp
  next
    case False
    with "3.prems"(1) rp ai obtain t1 k1 c1 where
      sp: "split_internal t internal_id ip (index + 1) insert_key second_split_page_id = Some (t1, k1, c1)"
      and rest: "cascade t1 write_set indexes k1 c1 = Some (t', k', c', f)"
      by (auto simp: Let_def split: bind_splits)
    from split_internal_frame [OF sp "3.prems"(2) ne]
    have "ReadPage t1 q = Some (Leaf lp)" .
    from "3.IH" [OF refl rp ai False sp refl refl rest this] show ?thesis .
  qed
qed

lemma new_root_frame:
  "new_root t k a b = Some t' \<Longrightarrow> ReadPage t q = Some p \<Longrightarrow> ReadPage t' q = Some p"
  by (auto dest!: new_root_SomeD simp: ReadPage_def read_at_def nth_append split: if_splits)

lemma ceil_half: "\<lceil>(real_of_int M + 1) / 2\<rceil> = (M + 2) div 2"
proof -
  have "(real_of_int M + 1) / 2 = real_of_int (M + 1) / real_of_int 2" by simp
  then have "\<lceil>(real_of_int M + 1) / 2\<rceil> = - (- (M + 1) div 2)"
    by (simp only: ceiling_divide_eq_div)
  also have "\<dots> = (M + 2) div 2" by presburger
  finally show ?thesis .
qed

lemma filter_less_sorted:
  fixes k :: "'a::linorder"
  assumes "sorted_wrt (<) xs" "i \<le> length xs"
    and "i = 0 \<or> xs ! (i - 1) < k" and "i = length xs \<or> k < xs ! i"
  shows "length (filter (\<lambda>x. x < k) xs) = i"
  using assms
proof (induction xs arbitrary: i)
  case Nil
  then show ?case by simp
next
  case (Cons x xs)
  show ?case
  proof (cases i)
    case 0
    with Cons.prems have "k < x" by simp
    moreover from Cons.prems have "\<forall>y\<in>set xs. x < y" by simp
    ultimately have "filter (\<lambda>x. x < k) (x # xs) = []"
      by (auto simp: filter_empty_conv)
    with 0 show ?thesis by simp
  next
    case (Suc j)
    have xk: "x < k"
    proof (cases j)
      case 0
      with Suc Cons.prems show ?thesis by simp
    next
      case (Suc j')
      with \<open>i = Suc j\<close> Cons.prems have "x < xs ! j'" "xs ! j' < k" by auto
      then show ?thesis by simp
    qed
    have p1: "sorted_wrt (<) xs" "j \<le> length xs"
      using Cons.prems Suc by simp_all
    have p2: "j = 0 \<or> xs ! (j - 1) < k"
      using Cons.prems(3) Suc by (cases j) simp_all
    have p3: "j = length xs \<or> k < xs ! j"
      using Cons.prems(4) Suc by simp
    have "length (filter (\<lambda>x. x < k) xs) = j"
      using p1 p2 p3 by (rule Cons.IH)
    with xk Suc show ?thesis by simp
  qed
qed


lemma Insert_leaf_at_leaf:
  assumes "ReadPage t (root_page_id t) = Some root_page"
    and "Insert_descend (length (pages t)) t key root_page [root_page_id t] [] =
           Some (Some (Leaf lp, leaf_id # ancestors, indexes))"
  shows "Insert_leaf key value t =
    IndexBinarySearchLeaf lp key \<bind> (\<lambda>insert_index.
      leaf_KeyAt lp insert_index \<bind> (\<lambda>k.
        if comparator k key = 0 then Some ReturnedFalse
        else if l_size lp < l_max_size lp then
          insert_into_leaf lp insert_index key value \<bind> (\<lambda>leaf_page.
            WritePage t leaf_id (Leaf leaf_page) \<bind> (\<lambda>t. Some (Absorbed t)))
        else
          split_leaf t leaf_id lp insert_index key value \<bind> (\<lambda>(t, insert_key, new_leaf_id).
            Some (Split t insert_key new_leaf_id ancestors indexes))))"
  using assms by (simp add: Insert_leaf_def AsLeaf_def cong: if_cong)

lemma Insert_after_split:
  assumes "root_page_id t \<noteq> INVALID_PAGE_ID"
    and "Insert_leaf key value t = Some (Split t1 k c ws idxs)"
  shows "Insert key value t =
     cascade t1 ws idxs k c \<bind> (\<lambda>(t', insert_key, second_split_page_id, new_root_flag).
       if new_root_flag then
         map_option (Pair True) (new_root t' insert_key (root_page_id t) second_split_page_id)
       else Some (True, t'))"
  using assms by (simp add: Insert_def)

lemma filter_all:
  "length (filter P xs) = length xs \<Longrightarrow> \<forall>x\<in>set xs. P x"
proof (induction xs)
  case Nil
  then show ?case by simp
next
  case (Cons x xs)
  have le: "length (filter P xs) \<le> length xs" by (rule length_filter_le)
  show ?case
  proof (cases "P x")
    case True
    with Cons.prems have "length (filter P xs) = length xs" by simp
    from Cons.IH [OF this] True show ?thesis by simp
  next
    case False
    with Cons.prems le show ?thesis by simp
  qed
qed

text \<open>
  C5. Let the descent of \<^verbatim>\<open>Insert(key, value)\<close> end at the leaf \<open>lp\<close> of page \<open>leaf_id\<close>.
  Let this leaf be full, with capacity \<open>M\<close>, its \<open>M\<close> slots present and its keys strictly
  increasing; let the key be none of the keys of the leaf; let a fresh page have room for
  the second half; and, when the key is greater than every key of the leaf, let slot \<open>M\<close>
  of the key array exist and hold another key than the new one (the duplicate check reads
  that slot). Then the insertion splits the leaf: a fresh page \<open>N\<close> is allocated; the
  old leaf \<open>L\<close> holds \<open>\<lceil>(M + 1) / 2\<rceil>\<close> entries and \<open>N\<close> the remaining ones; the keys of
  \<open>L\<close> followed by the keys of \<open>N\<close> are the old keys with the new key inserted in
  order, and the values follow their keys; \<open>N\<close> takes over the old next-page link and
  \<open>L\<close> links to \<open>N\<close>; no other page changes; the key passed to the parent is the key in
  slot 0 of \<open>N\<close>, passed together with the identifier of \<open>N\<close>, and the split cascade
  starts from them; and whenever the insertion completes, it returns true and the tree
  holds \<open>L\<close> and \<open>N\<close>. The conditions on the key and on the fresh page are those under
  which a full leaf is split at all (shown after the theorem); the insertion of a key that
  the leaf holds is the matter of C2.
\<close>

theorem Insert_splits_leaf:
  fixes t :: "('k::{linorder,zero}, 'v::zero) bplustree"
  assumes root: "root_page_id t \<noteq> INVALID_PAGE_ID"
    and rp: "ReadPage t (root_page_id t) = Some root_page"
    and desc: "Insert_descend (length (pages t)) t key root_page [root_page_id t] [] =
                 Some (Some (Leaf lp, leaf_id # ancestors, indexes))"
    and full: "l_size lp = M" "l_max_size lp = M" "1 \<le> M"
    and slots: "M \<le> int (length (l_key_array lp))" "M \<le> int (length (l_rid_array lp))"
    and room: "M + 1 - (M + 2) div 2 \<le> int (leaf_slot_cnt t)"
    and sorted: "sorted_wrt (<) (leaf_keys lp)"
    and absent: "key \<notin> set (leaf_keys lp)"
    and stale: "(\<forall>x\<in>set (leaf_keys lp). x < key) \<longrightarrow>
                  M < int (length (l_key_array lp)) \<and> l_key_array lp ! nat M \<noteq> key"
  shows "\<exists>t1 L N.
      Insert_leaf key value t =
        Some (Split t1 (l_key_array N ! 0) (int (length (pages t))) ancestors indexes) \<and>
      Insert_cascade key value t =
        cascade t1 ancestors indexes (l_key_array N ! 0) (int (length (pages t))) \<and>
      ReadPage t (int (length (pages t))) = None \<and>
      ReadPage t1 leaf_id = Some (Leaf L) \<and>
      ReadPage t1 (int (length (pages t))) = Some (Leaf N) \<and>
      (\<forall>pid. pid \<noteq> leaf_id \<longrightarrow> pid \<noteq> int (length (pages t)) \<longrightarrow> ReadPage t1 pid = ReadPage t pid) \<and>
      l_size L = \<lceil>(real_of_int M + 1) / 2\<rceil> \<and>
      l_size N = M + 1 - \<lceil>(real_of_int M + 1) / 2\<rceil> \<and>
      leaf_keys L @ leaf_keys N = insort key (leaf_keys lp) \<and>
      leaf_values L @ leaf_values N =
        take (length (filter (\<lambda>x. x < key) (leaf_keys lp))) (leaf_values lp) @ [value] @
        drop (length (filter (\<lambda>x. x < key) (leaf_keys lp))) (leaf_values lp) \<and>
      l_next_page_id N = l_next_page_id lp \<and>
      l_next_page_id L = int (length (pages t)) \<and>
      (\<forall>b t'. Insert key value t = Some (b, t') \<longrightarrow>
         b \<and> ReadPage t' leaf_id = Some (Leaf L) \<and>
         ReadPage t' (int (length (pages t))) = Some (Leaf N))"
proof -
  have "M = int (nat M)" "1 \<le> nat M"
    using full(3) by simp_all
  then obtain m where m: "M = int m" "1 \<le> m"
    by blast
  have lens: "m \<le> length (l_key_array lp)" "m \<le> length (l_rid_array lp)"
    using slots m by simp_all
  have lk: "leaf_keys lp = take m (l_key_array lp)" "leaf_values lp = take m (l_rid_array lp)"
    using full m by (simp_all add: leaf_keys_def leaf_values_def)
  have len_lk: "length (leaf_keys lp) = m" using lens by (simp add: lk)
  have nth_lk: "\<And>j. j < m \<Longrightarrow> leaf_keys lp ! j = l_key_array lp ! j"
    by (simp add: lk)
  have mem: "\<And>j. j < m \<Longrightarrow> l_key_array lp ! j \<in> set (leaf_keys lp)"
  proof -
    fix j assume j: "j < m"
    then have "leaf_keys lp ! j \<in> set (leaf_keys lp)"
      using len_lk by (intro nth_mem) simp
    with j show "l_key_array lp ! j \<in> set (leaf_keys lp)" by (simp add: nth_lk)
  qed
  from Insert_descend_SomeD [OF desc] rp have rl: "ReadPage t leaf_id = Some (Leaf lp)"
    by simp
  then have lid: "0 \<le> leaf_id" "leaf_id < int (length (pages t))"
    by (auto dest!: ReadPage_SomeD)
  have k0: "key \<noteq> l_key_array lp ! 0"
    using mem [of 0] m(2) absent by auto
  have "\<exists>res. IndexBinarySearchLeaf lp key = Some res \<and> res \<noteq> - 1"
    using full m slots k0 by (intro IndexBinarySearchLeaf_total) simp_all
  then obtain idx where idx: "IndexBinarySearchLeaf lp key = Some idx" and idx1: "idx \<noteq> - 1"
    by blast
  have idx0: "0 \<le> idx"
    using IndexBinarySearchLeaf_SomeD [OF idx] idx1 by auto
  then have "idx = int (nat idx)" by simp
  then obtain i where i: "idx = int i" by blast
  have pos: "i \<le> m \<and> (i = 0 \<or> l_key_array lp ! (i - 1) < key) \<and> (i = m \<or> key < l_key_array lp ! i)"
    using IndexBinarySearchLeaf_SomeD [OF idx]
  proof (elim disjE conjE exE)
    fix k0 assume a: "idx = 0" "leaf_KeyAt lp 0 = Some k0" "key < k0"
    have "i = 0" using a(1) i by simp
    moreover have "k0 = l_key_array lp ! 0" using leaf_KeyAt_SomeD [OF a(2)] by simp
    ultimately show ?thesis using a(3) by simp
  next
    assume "idx = - 1"
    with idx1 show ?thesis by simp
  next
    fix km assume a: "1 \<le> idx" "idx \<le> l_size lp" "leaf_KeyAt lp (idx - 1) = Some km" "km < key"
      "idx = l_size lp"
    have n1: "nat (idx - 1) = i - 1" unfolding i by simp
    have "km = l_key_array lp ! nat (idx - 1)" using leaf_KeyAt_SomeD [OF a(3)] by simp
    then have "l_key_array lp ! (i - 1) < key" using a(4) n1 by simp
    moreover have "i = m" using a(5) i full(1) m(1) by simp
    ultimately show ?thesis by simp
  next
    fix km kn assume a: "1 \<le> idx" "idx \<le> l_size lp" "leaf_KeyAt lp (idx - 1) = Some km" "km < key"
      "leaf_KeyAt lp idx = Some kn" "key \<le> kn"
    have n1: "nat (idx - 1) = i - 1" unfolding i by simp
    have "km = l_key_array lp ! nat (idx - 1)" using leaf_KeyAt_SomeD [OF a(3)] by simp
    then have lo: "l_key_array lp ! (i - 1) < key" using a(4) n1 by simp
    have im: "i \<le> m" using a(2) i full(1) m(1) by simp
    show ?thesis
    proof (cases "i = m")
      case True
      with lo show ?thesis by simp
    next
      case False
      with im have "i < m" by simp
      from mem [OF this] absent have "l_key_array lp ! i \<noteq> key" by auto
      moreover have "kn = l_key_array lp ! i" using leaf_KeyAt_SomeD [OF a(5)] i by simp
      ultimately have "key < l_key_array lp ! i" using a(6) by simp
      with lo im show ?thesis by simp
    qed
  qed
  have im: "i \<le> m" using pos by blast
  have pos1: "i \<le> length (leaf_keys lp)" using im len_lk by simp
  have pos2: "i = 0 \<or> leaf_keys lp ! (i - 1) < key"
  proof (cases "i = 0")
    case False
    then have "i - 1 < m" using im by arith
    then have "leaf_keys lp ! (i - 1) = l_key_array lp ! (i - 1)" by (simp add: lk)
    with pos False show ?thesis by simp
  qed simp
  have pos3: "i = length (leaf_keys lp) \<or> key < leaf_keys lp ! i"
  proof (cases "i = m")
    case False
    then have "i < m" using im by arith
    then have "leaf_keys lp ! i = l_key_array lp ! i" by (simp add: lk)
    with pos False show ?thesis by simp
  qed (simp add: len_lk)
  note pos' = pos1 pos2 pos3
  have so: "insort key (leaf_keys lp) = take i (leaf_keys lp) @ [key] @ drop i (leaf_keys lp)"
    using sorted pos' by (rule insort_at)
  have fl: "length (filter (\<lambda>x. x < key) (leaf_keys lp)) = i"
    using sorted pos' by (rule filter_less_sorted)
  have "\<exists>kk. leaf_KeyAt lp idx = Some kk \<and> kk \<noteq> key"
  proof (cases "i = m")
    case False
    with im have lt: "i < m" by simp
    with pos have "key < l_key_array lp ! i" by simp
    moreover have "leaf_KeyAt lp idx = Some (l_key_array lp ! i)"
      using lt lens i by (simp add: leaf_KeyAt_def read_at_def)
    ultimately show ?thesis by auto
  next
    case True
    have "length (filter (\<lambda>x. x < key) (leaf_keys lp)) = length (leaf_keys lp)"
      using fl True len_lk by simp
    then have "\<forall>x\<in>set (leaf_keys lp). x < key"
      by (rule filter_all)
    with stale have "M < int (length (l_key_array lp))" "l_key_array lp ! nat M \<noteq> key"
      by simp_all
    moreover have "idx = M" using True i m by simp
    ultimately show ?thesis
      using full(3) by (simp add: leaf_KeyAt_def read_at_def)
  qed
  then obtain kk where kk: "leaf_KeyAt lp idx = Some kk" and ne: "kk \<noteq> key"
    by blast
  have room': "Suc m - (m + 2) div 2 \<le> leaf_slot_cnt t"
  proof -
    have "(M + 2) div 2 = int ((m + 2) div 2)" unfolding m by (simp add: zdiv_int)
    with room m show ?thesis by simp
  qed
  from split_leaf_total [OF full(2) [unfolded m] m(2) im lens lid room', of key "value"]
  obtain t1 ikey nid where
    sp: "split_leaf t leaf_id lp (int i) key value = Some (t1, ikey, nid)"
    by auto
  have IL0: "Insert_leaf key value t = Some (Split t1 ikey nid ancestors indexes)"
    unfolding Insert_leaf_at_leaf [OF rp desc]
    using idx kk ne full sp [folded i] by simp
  from split_leaf_SomeD [OF sp full(2) [unfolded m] m(2) im lens lid(2)]
  obtain L N where
    nid: "nid = int (length (pages t))" and
    fr: "\<forall>pid. pid \<noteq> leaf_id \<longrightarrow> pid \<noteq> nid \<longrightarrow> ReadPage t1 pid = ReadPage t pid" and
    r1: "ReadPage t1 leaf_id = Some (Leaf L)" "ReadPage t1 nid = Some (Leaf N)" and
    sz: "l_size L = int ((m + 2) div 2)" "l_size N = int (Suc m - (m + 2) div 2)" and
    nx: "l_next_page_id N = l_next_page_id lp" "l_next_page_id L = nid" and
    ik: "ikey = l_key_array N ! 0" and
    ks: "leaf_keys L @ leaf_keys N = take i (l_key_array lp) @ [key] @ drop i (take m (l_key_array lp))" and
    vs: "leaf_values L @ leaf_values N = take i (l_rid_array lp) @ [value] @ drop i (take m (l_rid_array lp))"
    by blast
  have IL: "Insert_leaf key value t =
      Some (Split t1 (l_key_array N ! 0) (int (length (pages t))) ancestors indexes)"
    using IL0 ik nid by simp
  have IC: "Insert_cascade key value t =
      cascade t1 ancestors indexes (l_key_array N ! 0) (int (length (pages t)))"
    by (simp add: Insert_cascade_def IL)
  have FIN: "\<forall>b t'. Insert key value t = Some (b, t') \<longrightarrow>
         b \<and> ReadPage t' leaf_id = Some (Leaf L) \<and>
         ReadPage t' (int (length (pages t))) = Some (Leaf N)"
  proof (intro allI impI)
    fix b t' assume ins: "Insert key value t = Some (b, t')"
    from ins [unfolded Insert_after_split [OF root IL0]] obtain t2 k2 c2 f where
      casc: "cascade t1 ancestors indexes ikey nid = Some (t2, k2, c2, f)" and
      fin: "(if f then map_option (Pair True) (new_root t2 k2 (root_page_id t) c2)
             else Some (True, t2)) = Some (b, t')"
      by (auto simp: bind_eq_Some_conv)
    have r2: "ReadPage t2 leaf_id = Some (Leaf L)" "ReadPage t2 nid = Some (Leaf N)"
      using cascade_frame [OF casc] r1 by simp_all
    have "b" using fin by (auto split: if_splits)
    moreover have "ReadPage t' leaf_id = Some (Leaf L)" "ReadPage t' nid = Some (Leaf N)"
      using fin r2 by (auto split: if_splits dest: new_root_frame)
    ultimately show "b \<and> ReadPage t' leaf_id = Some (Leaf L) \<and>
         ReadPage t' (int (length (pages t))) = Some (Leaf N)"
      unfolding nid by simp
  qed
  have c1: "\<lceil>(real_of_int M + 1) / 2\<rceil> = int ((m + 2) div 2)"
    unfolding ceil_half m by (simp add: zdiv_int)
  have c2: "M + 1 - \<lceil>(real_of_int M + 1) / 2\<rceil> = int (Suc m - (m + 2) div 2)"
    unfolding c1 using m by (simp add: of_nat_diff)
  have tk: "take i (take m (l_key_array lp)) = take i (l_key_array lp)"
    "take i (take m (l_rid_array lp)) = take i (l_rid_array lp)"
    using im by (simp_all add: min_def)
  have so': "insort key (leaf_keys lp) =
      take i (l_key_array lp) @ [key] @ drop i (take m (l_key_array lp))"
    using so unfolding lk tk .
  have K: "leaf_keys L @ leaf_keys N = insort key (leaf_keys lp)"
    unfolding so' by (rule ks)
  have V: "leaf_values L @ leaf_values N =
        take (length (filter (\<lambda>x. x < key) (leaf_keys lp))) (leaf_values lp) @ [value] @
        drop (length (filter (\<lambda>x. x < key) (leaf_keys lp))) (leaf_values lp)"
    unfolding fl unfolding lk tk by (rule vs)
  have S1: "l_size L = \<lceil>(real_of_int M + 1) / 2\<rceil>"
    and S2: "l_size N = M + 1 - \<lceil>(real_of_int M + 1) / 2\<rceil>"
    unfolding c2 unfolding c1 using sz by simp_all
  have F: "ReadPage t (int (length (pages t))) = None"
    by (rule ReadPage_fresh)
  from IL IC F r1 [unfolded nid] fr [unfolded nid] S1 S2 K V nx [unfolded nid] FIN show ?thesis
    by blast
qed

theorem Insert_splits_leaf_witness:
  "(insert_all [(10, 1), (20, 2), (30, 3), (40, 4), (50, 5)] (BPlusTree 5 3 6 4) = Some tree_wide \<and>
    ReadPage tree_wide (root_page_id tree_wide) = Some (Leaf wide_leaf) \<and>
    leaf_keys wide_leaf = [10, 20, 30, 40, 50] \<and>
    (\<exists>t1 L N. Insert_leaf 15 6 tree_wide = Some (Split t1 (l_key_array N ! 0) 1 [] []) \<and>
       ReadPage t1 0 = Some (Leaf L) \<and> ReadPage t1 1 = Some (Leaf N) \<and>
       l_size L = 3 \<and> l_size N = 3 \<and>
       leaf_keys L @ leaf_keys N = [10, 15, 20, 30, 40, 50] \<and>
       leaf_values L @ leaf_values N = [1, 6, 2, 3, 4, 5] \<and>
       l_next_page_id N = - 1 \<and> l_next_page_id L = 1) \<and>
    (\<exists>t1 L N. Insert_leaf 45 6 tree_wide = Some (Split t1 (l_key_array N ! 0) 1 [] []) \<and>
       ReadPage t1 0 = Some (Leaf L) \<and> ReadPage t1 1 = Some (Leaf N) \<and>
       l_size L = 3 \<and> l_size N = 3 \<and>
       leaf_keys L @ leaf_keys N = [10, 20, 30, 40, 45, 50] \<and>
       leaf_values L @ leaf_values N = [1, 2, 3, 4, 6, 5] \<and>
       l_next_page_id N = - 1 \<and> l_next_page_id L = 1)) \<and>
   (map page_view (case Insert 15 6 tree_wide of Some (b, t') \<Rightarrow> pages t' | None \<Rightarrow> []) =
      [LeafKeys [10, 15, 20], LeafKeys [30, 40, 50], Separators [30] [0, 1]] \<and>
    map page_view (case Insert 45 6 tree_wide of Some (b, t') \<Rightarrow> pages t' | None \<Rightarrow> []) =
      [LeafKeys [10, 20, 30], LeafKeys [40, 45, 50], Separators [40] [0, 1]]) \<and>
   (ReadPage tree_five (root_page_id tree_five) = Some (Internal full_root) \<and>
    Insert_descend (length (pages tree_five)) tree_five 45 (Internal full_root)
      [root_page_id tree_five] [] =
      Some (Some (Leaf \<lparr>l_size = 2, l_max_size = 2, l_next_page_id = 3,
                          l_key_array = [30, 40, 0, 0], l_rid_array = [3, 4, 0, 0]\<rparr>, [1, 2], [1])) \<and>
    Insert 45 6 tree_five = Some (True, tree_six) \<and>
    (\<exists>t1 L N. Insert_leaf 45 6 tree_five = Some (Split t1 (l_key_array N ! 0) 4 [2] [1]) \<and>
       ReadPage tree_six 1 = Some (Leaf L) \<and> ReadPage tree_six 4 = Some (Leaf N) \<and>
       l_size L = 2 \<and> l_size N = 1 \<and> leaf_keys L @ leaf_keys N = [30, 40, 45] \<and>
       leaf_values L @ leaf_values N = [3, 4, 6] \<and>
       l_next_page_id N = 3 \<and> l_next_page_id L = 4))"
proof -
  have b0: "insert_all [(10, 1), (20, 2), (30, 3), (40, 4), (50, 5)] (BPlusTree 5 3 6 4) =
      Some tree_wide" by code_simp
  have h1: "root_page_id tree_wide \<noteq> INVALID_PAGE_ID" by code_simp
  have h2: "ReadPage tree_wide (root_page_id tree_wide) = Some (Leaf wide_leaf)" by code_simp
  have h3: "Insert_descend (length (pages tree_wide)) tree_wide k (Leaf wide_leaf)
      [root_page_id tree_wide] [] = Some (Some (Leaf wide_leaf, 0 # [], []))" for k
    by (simp add: tree_wide_def)
  have h4: "l_size wide_leaf = 5" "l_max_size wide_leaf = 5" "(1::int) \<le> 5"
    by (simp_all add: wide_leaf_def)
  have h5: "5 \<le> int (length (l_key_array wide_leaf))" "5 \<le> int (length (l_rid_array wide_leaf))"
    by (simp_all add: wide_leaf_def)
  have h6: "5 + 1 - (5 + 2) div 2 \<le> int (leaf_slot_cnt tree_wide)"
    by (simp add: tree_wide_def)
  have lk: "leaf_keys wide_leaf = [10, 20, 30, 40, 50]"
    by (simp add: leaf_keys_def wide_leaf_def)
  have lv: "leaf_values wide_leaf = [1, 2, 3, 4, 5]"
    by (simp add: leaf_values_def wide_leaf_def)
  have h7: "sorted_wrt (<) (leaf_keys wide_leaf)" unfolding lk by simp
  have h8: "15 \<notin> set (leaf_keys wide_leaf)" "45 \<notin> set (leaf_keys wide_leaf)"
    unfolding lk by simp_all
  have h9: "(\<forall>x\<in>set (leaf_keys wide_leaf). x < 15) \<longrightarrow>
      5 < int (length (l_key_array wide_leaf)) \<and> l_key_array wide_leaf ! nat 5 \<noteq> 15"
    "(\<forall>x\<in>set (leaf_keys wide_leaf). x < 45) \<longrightarrow>
      5 < int (length (l_key_array wide_leaf)) \<and> l_key_array wide_leaf ! nat 5 \<noteq> 45"
    unfolding lk by simp_all
  have e1: "\<lceil>(real_of_int 5 + 1) / 2\<rceil> = 3" by simp
  have e2: "int (length (pages tree_wide)) = 1" by (simp add: tree_wide_def)
  have e3: "insort 15 [10, 20, 30, 40, 50 :: int] = [10, 15, 20, 30, 40, 50]"
    "insort 45 [10, 20, 30, 40, 50 :: int] = [10, 20, 30, 40, 45, 50]" by simp_all
  have e4: "length (filter (\<lambda>x. x < 15) [10, 20, 30, 40, 50 :: int]) = 1"
    "length (filter (\<lambda>x. x < 45) [10, 20, 30, 40, 50 :: int]) = 4" by simp_all
  from Insert_splits_leaf [OF h1 h2 h3 h4 h5 h6 h7 h8(1) h9(1), of 6]
  have lower: "\<exists>t1 L N. Insert_leaf 15 6 tree_wide = Some (Split t1 (l_key_array N ! 0) 1 [] []) \<and>
       ReadPage t1 0 = Some (Leaf L) \<and> ReadPage t1 1 = Some (Leaf N) \<and>
       l_size L = 3 \<and> l_size N = 3 \<and>
       leaf_keys L @ leaf_keys N = [10, 15, 20, 30, 40, 50] \<and>
       leaf_values L @ leaf_values N = [1, 6, 2, 3, 4, 5] \<and>
       l_next_page_id N = - 1 \<and> l_next_page_id L = 1"
    unfolding e1 e2 lk lv e3 e4 by (simp add: wide_leaf_def) blast
  from Insert_splits_leaf [OF h1 h2 h3 h4 h5 h6 h7 h8(2) h9(2), of 6]
  have upper: "\<exists>t1 L N. Insert_leaf 45 6 tree_wide = Some (Split t1 (l_key_array N ! 0) 1 [] []) \<and>
       ReadPage t1 0 = Some (Leaf L) \<and> ReadPage t1 1 = Some (Leaf N) \<and>
       l_size L = 3 \<and> l_size N = 3 \<and>
       leaf_keys L @ leaf_keys N = [10, 20, 30, 40, 45, 50] \<and>
       leaf_values L @ leaf_values N = [1, 2, 3, 4, 6, 5] \<and>
       l_next_page_id N = - 1 \<and> l_next_page_id L = 1"
    unfolding e1 e2 lk lv e3 e4 by (simp add: wide_leaf_def) blast
  have runs: "map page_view (case Insert 15 6 tree_wide of Some (b, t') \<Rightarrow> pages t' | None \<Rightarrow> []) =
      [LeafKeys [10, 15, 20], LeafKeys [30, 40, 50], Separators [30] [0, 1]] \<and>
    map page_view (case Insert 45 6 tree_wide of Some (b, t') \<Rightarrow> pages t' | None \<Rightarrow> []) =
      [LeafKeys [10, 20, 30], LeafKeys [40, 45, 50], Separators [40] [0, 1]]"
    by code_simp
  let ?lp = "\<lparr>l_size = 2, l_max_size = 2, l_next_page_id = 3,
              l_key_array = [30, 40, 0, 0], l_rid_array = [3, 4, 0, 0]\<rparr> :: (int, int) leaf_page"
  have g1: "root_page_id tree_five \<noteq> INVALID_PAGE_ID" by code_simp
  have g2: "ReadPage tree_five (root_page_id tree_five) = Some (Internal full_root)" by code_simp
  have g3: "Insert_descend (length (pages tree_five)) tree_five 45 (Internal full_root)
      [root_page_id tree_five] [] = Some (Some (Leaf ?lp, 1 # [2], [1]))" by code_simp
  have g4: "l_size ?lp = 2" "l_max_size ?lp = 2" "(1::int) \<le> 2" by simp_all
  have g5: "2 \<le> int (length (l_key_array ?lp))" "2 \<le> int (length (l_rid_array ?lp))" by simp_all
  have g6: "2 + 1 - (2 + 2) div 2 \<le> int (leaf_slot_cnt tree_five)" by (simp add: tree_five_def)
  have gk: "leaf_keys ?lp = [30, 40]" by (simp add: leaf_keys_def)
  have gv: "leaf_values ?lp = [3, 4]" by (simp add: leaf_values_def)
  have g7: "sorted_wrt (<) (leaf_keys ?lp)" unfolding gk by simp
  have g8: "45 \<notin> set (leaf_keys ?lp)" unfolding gk by simp
  have g9: "(\<forall>x\<in>set (leaf_keys ?lp). x < 45) \<longrightarrow>
      2 < int (length (l_key_array ?lp)) \<and> l_key_array ?lp ! nat 2 \<noteq> 45"
    by (simp add: numeral_2_eq_2)
  have g10: "Insert 45 6 tree_five = Some (True, tree_six)" by code_simp
  have f1: "\<lceil>(real_of_int 2 + 1) / 2\<rceil> = 2" by simp
  have f2: "int (length (pages tree_five)) = 4" by (simp add: tree_five_def)
  have f3: "insort 45 [30, 40 :: int] = [30, 40, 45]" by simp
  have f4: "length (filter (\<lambda>x. x < 45) [30, 40 :: int]) = 2" by simp
  from Insert_splits_leaf [OF g1 g2 g3 g4 g5 g6 g7 g8 g9, of 6]
  have two: "\<exists>t1 L N. Insert_leaf 45 6 tree_five = Some (Split t1 (l_key_array N ! 0) 4 [2] [1]) \<and>
       ReadPage tree_six 1 = Some (Leaf L) \<and> ReadPage tree_six 4 = Some (Leaf N) \<and>
       l_size L = 2 \<and> l_size N = 1 \<and> leaf_keys L @ leaf_keys N = [30, 40, 45] \<and>
       leaf_values L @ leaf_values N = [3, 4, 6] \<and>
       l_next_page_id N = 3 \<and> l_next_page_id L = 4"
    unfolding f1 f2 gk gv f3 f4 g10 by simp blast
  from b0 h2 lk lower upper runs g2 g3 [simplified] g10 two show ?thesis by blast
qed

subsection \<open>When a full leaf is split\<close>

lemma leaf_redistribute_room:
  assumes r: "leaf_redistribute lp np (int i) (int f) (int s) k v = Some (L, N)"
    and s: "1 \<le> s" and up: "f \<le> i \<longrightarrow> i < f + s"
  shows "s \<le> length (l_key_array np)"
proof (cases "i < f")
  case True
  with r have "(for_each [0..int s - 1] (leaf_copy lp (int f - 1)) np \<bind> (\<lambda>new_leaf_page.
      for_each (rev [int i + 1..int f - 1]) leaf_shift lp \<bind> (\<lambda>leaf_page.
      leaf_SetKeyAt leaf_page (int i) k \<bind> (\<lambda>leaf_page.
      leaf_SetValueAt leaf_page (int i) v \<bind> (\<lambda>leaf_page.
      Some (leaf_page, new_leaf_page)))))) = Some (L, N)"
    unfolding leaf_redistribute_def by simp
  then obtain n1 where "for_each [0..int s - 1] (leaf_copy lp (int f - 1)) np = Some n1"
    by (auto simp: bind_eq_Some_conv)
  from for_each_leaf_copy [OF this]
  have "\<forall>j\<in>set [0..int s - 1]. j < int (length (l_key_array np))" by blast
  moreover have "int s - 1 \<in> set [0..int s - 1]" using s by simp
  ultimately have "int s - 1 < int (length (l_key_array np))" by blast
  then show ?thesis by simp
next
  case False
  then have fi: "f \<le> i" by simp
  from leaf_redistribute_upper [OF r fi] obtain n1 n2 n3 where
    a: "for_each [0..int i - int f - 1] (leaf_copy lp (int f)) np = Some n1" and
    b: "leaf_SetKeyAt n1 (int i - int f) k = Some n2" and
    c: "leaf_SetValueAt n2 (int i - int f) v = Some n3" and
    d: "for_each [int i - int f + 1..int s - 1] (leaf_copy lp (int f - 1)) n3 = Some N"
    by blast
  have l1: "length (l_key_array n1) = length (l_key_array np)"
    using for_each_leaf_copy [OF a] by simp
  have l3: "length (l_key_array n3) = length (l_key_array np)"
    using leaf_SetKeyAt_SomeD [OF b] leaf_SetValueAt_SomeD [OF c] l1 by auto
  show ?thesis
  proof (cases "i + 1 = f + s")
    case True
    have "int i - int f < int (length (l_key_array n1))"
      using leaf_SetKeyAt_SomeD [OF b] by simp
    with True l1 show ?thesis by simp
  next
    case False
    with up fi have "int s - 1 \<in> set [int i - int f + 1..int s - 1]" by auto
    moreover from for_each_leaf_copy [OF d]
    have "\<forall>j\<in>set [int i - int f + 1..int s - 1]. j < int (length (l_key_array n3))" by blast
    ultimately have "int s - 1 < int (length (l_key_array n3))" by blast
    with l3 show ?thesis by simp
  qed
qed

lemma split_leaf_room:
  fixes t :: "('k::zero, 'v::zero) bplustree"
  assumes sp: "split_leaf t lid lp (int i) k v = Some (t1, ikey, nid)"
    and M: "l_max_size lp = int m" "1 \<le> m" "i \<le> m"
  shows "Suc m - (m + 2) div 2 \<le> leaf_slot_cnt t"
proof -
  define f where "f = (m + 2) div 2"
  define s where "s = Suc m - f"
  have sizes: "f + s = Suc m" "1 \<le> f" "f \<le> m" "1 \<le> s"
    using M by (auto simp: f_def s_def)
  have fs: "(l_max_size lp + 2) sdiv 2 = int f" "l_max_size lp + 1 - int f = int s"
    using M sizes by (auto simp: sdiv_two_nat f_def s_def)
  have "\<exists>lp1 np L N. leaf_redistribute lp1 np (int i) (int f) (int s) k v = Some (L, N) \<and>
      length (l_key_array np) = leaf_slot_cnt t"
    using sp
    unfolding split_leaf_def NewLeafPage_def Let_def fs prod.case
    apply (elim bind_eq_Some_conv [THEN iffD1, elim_format] exE conjE)
    apply (simp split: prod.splits)
    apply (elim bind_eq_Some_conv [THEN iffD1, elim_format] exE conjE)
    apply (intro exI conjI)
     apply assumption
    apply simp
    done
  then obtain lp1 np L N where
    r: "leaf_redistribute lp1 np (int i) (int f) (int s) k v = Some (L, N)" and
    l: "length (l_key_array np) = leaf_slot_cnt t"
    by blast
  have "f \<le> i \<longrightarrow> i < f + s" using sizes M(3) by simp
  from leaf_redistribute_room [OF r sizes(4) this] l show ?thesis
    by (simp add: s_def f_def)
qed

text \<open>
  The conditions on the key and on the fresh page lose nothing: they hold whenever the
  insertion splits a full leaf whose keys are strictly increasing.
\<close>

lemma Insert_leaf_Split_only_if:
  fixes t :: "('k::{linorder,zero}, 'v::zero) bplustree"
  assumes rp: "ReadPage t (root_page_id t) = Some root_page"
    and desc: "Insert_descend (length (pages t)) t key root_page [root_page_id t] [] =
                 Some (Some (Leaf lp, leaf_id # ancestors, indexes))"
    and full: "l_size lp = M" "l_max_size lp = M" "1 \<le> M"
    and slots: "M \<le> int (length (l_key_array lp))"
    and sorted: "sorted_wrt (<) (leaf_keys lp)"
    and out: "Insert_leaf key value t = Some (Split t1 k c ws idxs)"
  shows "key \<notin> set (leaf_keys lp) \<and>
    ((\<forall>x\<in>set (leaf_keys lp). x < key) \<longrightarrow>
       M < int (length (l_key_array lp)) \<and> l_key_array lp ! nat M \<noteq> key) \<and>
    M + 1 - (M + 2) div 2 \<le> int (leaf_slot_cnt t)"
proof -
  have "M = int (nat M)" "1 \<le> nat M"
    using full(3) by simp_all
  then obtain m where m: "M = int m" "1 \<le> m"
    by blast
  have lens: "m \<le> length (l_key_array lp)"
    using slots m by simp
  have lk: "leaf_keys lp = take m (l_key_array lp)"
    using full m by (simp add: leaf_keys_def)
  have len_lk: "length (leaf_keys lp) = m" using lens by (simp add: lk)
  have nth_lk: "\<And>j. j < m \<Longrightarrow> leaf_keys lp ! j = l_key_array lp ! j"
    by (simp add: lk)
  from out [unfolded Insert_leaf_at_leaf [OF rp desc]] obtain idx kk where
    idx: "IndexBinarySearchLeaf lp key = Some idx" and kk: "leaf_KeyAt lp idx = Some kk" and
    br: "(if comparator kk key = 0 then Some ReturnedFalse
          else if l_size lp < l_max_size lp then
            insert_into_leaf lp idx key value \<bind> (\<lambda>leaf_page.
              WritePage t leaf_id (Leaf leaf_page) \<bind> (\<lambda>t. Some (Absorbed t)))
          else
            split_leaf t leaf_id lp idx key value \<bind> (\<lambda>(t, insert_key, new_leaf_id).
              Some (Split t insert_key new_leaf_id ancestors indexes))) = Some (Split t1 k c ws idxs)"
    by (elim bind_eq_Some_conv [THEN iffD1, elim_format] exE conjE)
  have ne: "kk \<noteq> key"
  proof
    assume "kk = key"
    with br show False by simp
  qed
  with br full have sp: "split_leaf t leaf_id lp idx key value = Some (t1, k, c)"
    by (auto simp: bind_eq_Some_conv)
  note kd = leaf_KeyAt_SomeD [OF kk]
  have "idx = int (nat idx)" using kd by simp
  then obtain i where i: "idx = int i" by blast
  have pos: "i \<le> m \<and> (i = 0 \<or> l_key_array lp ! (i - 1) < key) \<and> (i = m \<or> key < l_key_array lp ! i)"
    using IndexBinarySearchLeaf_SomeD [OF idx]
  proof (elim disjE conjE exE)
    fix k0 assume a: "idx = 0" "leaf_KeyAt lp 0 = Some k0" "key < k0"
    have "i = 0" using a(1) i by simp
    moreover have "k0 = l_key_array lp ! 0" using leaf_KeyAt_SomeD [OF a(2)] by simp
    ultimately show ?thesis using a(3) by simp
  next
    assume "idx = - 1"
    with kd show ?thesis by simp
  next
    fix km assume a: "1 \<le> idx" "idx \<le> l_size lp" "leaf_KeyAt lp (idx - 1) = Some km" "km < key"
      "idx = l_size lp"
    have n1: "nat (idx - 1) = i - 1" unfolding i by simp
    have "km = l_key_array lp ! nat (idx - 1)" using leaf_KeyAt_SomeD [OF a(3)] by simp
    then have "l_key_array lp ! (i - 1) < key" using a(4) n1 by simp
    moreover have "i = m" using a(5) i full(1) m(1) by simp
    ultimately show ?thesis by simp
  next
    fix km kn assume a: "1 \<le> idx" "idx \<le> l_size lp" "leaf_KeyAt lp (idx - 1) = Some km" "km < key"
      "leaf_KeyAt lp idx = Some kn" "key \<le> kn"
    have n1: "nat (idx - 1) = i - 1" unfolding i by simp
    have "km = l_key_array lp ! nat (idx - 1)" using leaf_KeyAt_SomeD [OF a(3)] by simp
    then have lo: "l_key_array lp ! (i - 1) < key" using a(4) n1 by simp
    have "kn = kk" using a(5) kk by simp
    then have "key < kk" using a(6) ne by simp
    moreover have "kk = l_key_array lp ! i" using kd i by simp
    ultimately have hi: "key < l_key_array lp ! i" by simp
    have "i \<le> m" using a(2) i full(1) m(1) by simp
    with lo hi show ?thesis by simp
  qed
  have im: "i \<le> m" using pos by blast
  have lo: "\<And>j. j < i \<Longrightarrow> leaf_keys lp ! j < key"
  proof -
    fix j assume j: "j < i"
    then have i0: "i \<noteq> 0" "i - 1 < m" using im by simp_all
    with pos have b: "leaf_keys lp ! (i - 1) < key" by (simp add: nth_lk)
    show "leaf_keys lp ! j < key"
    proof (cases "j = i - 1")
      case True
      with b show ?thesis by simp
    next
      case False
      with j have "j < i - 1" by simp
      from sorted_wrt_nth_less [OF sorted this] i0 len_lk
      have "leaf_keys lp ! j < leaf_keys lp ! (i - 1)" by simp
      with b show ?thesis by simp
    qed
  qed
  have hi: "\<And>j. i \<le> j \<Longrightarrow> j < m \<Longrightarrow> key < leaf_keys lp ! j"
  proof -
    fix j assume j: "i \<le> j" "j < m"
    then have "i < m" by simp
    with pos have b: "key < leaf_keys lp ! i" by (simp add: nth_lk)
    show "key < leaf_keys lp ! j"
    proof (cases "j = i")
      case True
      with b show ?thesis by simp
    next
      case False
      with j have "i < j" by simp
      from sorted_wrt_nth_less [OF sorted this] j len_lk
      have "leaf_keys lp ! i < leaf_keys lp ! j" by simp
      with b show ?thesis by simp
    qed
  qed
  have A: "key \<notin> set (leaf_keys lp)"
  proof
    assume "key \<in> set (leaf_keys lp)"
    then obtain j where j: "j < m" "leaf_keys lp ! j = key"
      using len_lk by (auto simp: in_set_conv_nth)
    show False
    proof (cases "j < i")
      case True
      from lo [OF this] j show False by simp
    next
      case False
      then have "i \<le> j" by simp
      from hi [OF this j(1)] j show False by simp
    qed
  qed
  have B: "(\<forall>x\<in>set (leaf_keys lp). x < key) \<longrightarrow>
       M < int (length (l_key_array lp)) \<and> l_key_array lp ! nat M \<noteq> key"
  proof
    assume all: "\<forall>x\<in>set (leaf_keys lp). x < key"
    have "i = m"
    proof (rule ccontr)
      assume "i \<noteq> m"
      with im have lt: "i < m" by simp
      from hi [OF order_refl lt] have "key < leaf_keys lp ! i" .
      moreover have "leaf_keys lp ! i \<in> set (leaf_keys lp)"
        using lt len_lk by (intro nth_mem) simp
      ultimately show False using all by auto
    qed
    then have "idx = M" using i m by simp
    with kd ne show "M < int (length (l_key_array lp)) \<and> l_key_array lp ! nat M \<noteq> key"
      by simp
  qed
  have "Suc m - (m + 2) div 2 \<le> leaf_slot_cnt t"
    using sp [unfolded i] full(2) [unfolded m] m(2) im by (rule split_leaf_room)
  moreover have "(M + 2) div 2 = int ((m + 2) div 2)" unfolding m by (simp add: zdiv_int)
  ultimately have C: "M + 1 - (M + 2) div 2 \<le> int (leaf_slot_cnt t)"
    using m by simp
  from A B C show ?thesis by blast
qed

text \<open>
  For a key equal to the key in slot 0 of the leaf, the insert search returns \<open>-1\<close> and the
  duplicate check reads key slot \<open>-1\<close>, whether the leaf is full or not: the insertion
  leaves the defined behaviour there, and no split of the leaf is defined.
\<close>

lemma index_search_left:
  assumes "0 \<le> l" "r < l_size p" "l_size p \<le> int (length (l_key_array p))"
    and "\<forall>j. l \<le> j \<and> j \<le> r \<longrightarrow> key \<le> l_key_array p ! nat j"
  shows "index_search p key l r = Some (- 1)"
  using assms
proof (induction p key l r rule: index_search.induct)
  case (1 p key l r)
  note pr = "1.prems"
  show ?case
  proof (cases "l \<le> r")
    case False
    then show ?thesis by (simp add: index_search.simps [of p key l r])
  next
    case True
    let ?mid = "(l + r) div 2"
    have mid: "l \<le> ?mid" "?mid \<le> r" using True by auto
    have km: "leaf_KeyAt p ?mid = Some (l_key_array p ! nat ?mid)"
      using mid pr by (simp add: leaf_KeyAt_def read_at_def)
    have "key \<le> l_key_array p ! nat ?mid" using pr(4) mid by blast
    then have c1: "\<not> comparator (l_key_array p ! nat ?mid) key < 0" by (simp add: not_less)
    have eq: "index_search p key l r = index_search p key l (?mid - 1)"
      using True km c1 by (simp add: index_search.simps [of p key l r])
    have i1: "?mid - 1 < l_size p" using mid pr(2) by simp
    have i2: "\<forall>j. l \<le> j \<and> j \<le> ?mid - 1 \<longrightarrow> key \<le> l_key_array p ! nat j"
      using pr(4) mid by auto
    from "1.IH"(2) [OF True km c1 pr(1) i1 pr(3) i2]
    show ?thesis unfolding eq .
  qed
qed

lemma Insert_key_of_slot_0:
  fixes t :: "('k::{linorder,zero}, 'v::zero) bplustree"
  assumes root: "root_page_id t \<noteq> INVALID_PAGE_ID"
    and rp: "ReadPage t (root_page_id t) = Some root_page"
    and desc: "Insert_descend (length (pages t)) t key root_page [root_page_id t] [] =
                 Some (Some (Leaf lp, leaf_id # ancestors, indexes))"
    and size: "1 \<le> l_size lp" "l_size lp \<le> int (length (l_key_array lp))"
    and sorted: "sorted_wrt (<) (leaf_keys lp)"
    and key: "key = l_key_array lp ! 0"
  shows "IndexBinarySearchLeaf lp key = Some (- 1) \<and> leaf_KeyAt lp (- 1) = None \<and>
    Insert_leaf key value t = None \<and> Insert key value t = None"
proof -
  have k0: "leaf_KeyAt lp 0 = Some (l_key_array lp ! 0)"
    using size by (cases "l_key_array lp") (simp_all add: leaf_KeyAt_def read_at_def)
  have ge: "\<forall>j. 0 \<le> j \<and> j \<le> l_size lp - 1 \<longrightarrow> key \<le> l_key_array lp ! nat j"
  proof (intro allI impI)
    fix j assume j: "0 \<le> j \<and> j \<le> l_size lp - 1"
    then have n: "nat j < nat (l_size lp)" "nat j < length (l_key_array lp)" using size by auto
    have len: "length (leaf_keys lp) = nat (l_size lp)"
      using size by (simp add: leaf_keys_def)
    have nth: "leaf_keys lp ! nat j = l_key_array lp ! nat j" "leaf_keys lp ! 0 = l_key_array lp ! 0"
      using n size by (simp_all add: leaf_keys_def)
    show "key \<le> l_key_array lp ! nat j"
    proof (cases "nat j = 0")
      case True
      then show ?thesis using key by simp
    next
      case False
      then have "0 < nat j" by simp
      from sorted_wrt_nth_less [OF sorted this] n len
      have "leaf_keys lp ! 0 < leaf_keys lp ! nat j" by simp
      then show ?thesis using nth key by simp
    qed
  qed
  have "index_search lp key 0 (l_size lp - 1) = Some (- 1)"
    using size ge by (intro index_search_left) simp_all
  then have I: "IndexBinarySearchLeaf lp key = Some (- 1)"
    using k0 key by (simp add: IndexBinarySearchLeaf_def)
  have K: "leaf_KeyAt lp (- 1) = None"
    by (simp add: leaf_KeyAt_def read_at_def)
  have L: "Insert_leaf key value t = None"
    unfolding Insert_leaf_at_leaf [OF rp desc] using I K by simp
  have "Insert key value t = None"
    using root L by (simp add: Insert_def)
  with I K L show ?thesis by blast
qed

subsection \<open>The loops over an internal page\<close>

lemma internal_KeyAt_SomeD:
  "internal_KeyAt p i = Some k \<Longrightarrow> 0 \<le> i \<and> i < int (length (i_key_array p)) \<and> k = i_key_array p ! nat i"
  by (auto simp: internal_KeyAt_def dest!: read_at_SomeD)

lemma internal_ValueAt_SomeD:
  "internal_ValueAt p i = Some v \<Longrightarrow> 0 \<le> i \<and> i < int (length (i_page_id_array p)) \<and> v = i_page_id_array p ! nat i"
  by (auto simp: internal_ValueAt_def dest!: read_at_SomeD)

lemma internal_SetKeyAt_SomeD:
  "internal_SetKeyAt p i k = Some p' \<Longrightarrow>
     0 \<le> i \<and> i < int (length (i_key_array p)) \<and> p' = p\<lparr>i_key_array := (i_key_array p)[nat i := k]\<rparr>"
  by (auto simp: internal_SetKeyAt_def dest!: write_at_SomeD)

lemma internal_SetValueAt_SomeD:
  "internal_SetValueAt p i v = Some p' \<Longrightarrow>
     0 \<le> i \<and> i < int (length (i_page_id_array p)) \<and> p' = p\<lparr>i_page_id_array := (i_page_id_array p)[nat i := v]\<rparr>"
  by (auto simp: internal_SetValueAt_def dest!: write_at_SomeD)

lemma internal_copy_SomeD:
  assumes "internal_copy src off i dst = Some dst'"
  shows "0 \<le> i \<and> 0 \<le> i + off \<and>
     i + off < int (length (i_key_array src)) \<and> i + off < int (length (i_page_id_array src)) \<and>
     i < int (length (i_key_array dst)) \<and> i < int (length (i_page_id_array dst)) \<and>
     dst' = dst\<lparr>i_key_array := (i_key_array dst)[nat i := i_key_array src ! nat (i + off)],
                i_page_id_array := (i_page_id_array dst)[nat i := i_page_id_array src ! nat (i + off)]\<rparr>"
  using assms
  by (auto simp: internal_copy_def split: bind_splits
      dest!: internal_KeyAt_SomeD internal_ValueAt_SomeD internal_SetKeyAt_SomeD internal_SetValueAt_SomeD)


lemma for_each_internal_copy:
  assumes "for_each is (internal_copy src off) dst = Some dst'"
  shows "i_size dst' = i_size dst \<and> i_max_size dst' = i_max_size dst \<and>
     length (i_key_array dst') = length (i_key_array dst) \<and>
     length (i_page_id_array dst') = length (i_page_id_array dst) \<and>
     (\<forall>j. i_key_array dst' ! j =
        (if int j \<in> set is then i_key_array src ! nat (int j + off) else i_key_array dst ! j)) \<and>
     (\<forall>j. i_page_id_array dst' ! j =
        (if int j \<in> set is then i_page_id_array src ! nat (int j + off) else i_page_id_array dst ! j)) \<and>
     (\<forall>i\<in>set is. 0 \<le> i \<and> i < int (length (i_key_array dst)) \<and>
        i < int (length (i_page_id_array dst)))"
  using assms
proof (induction "is" arbitrary: dst)
  case Nil
  then show ?case by simp
next
  case (Cons i "is")
  from Cons.prems obtain d1 where
    d1: "internal_copy src off i dst = Some d1" and rest: "for_each is (internal_copy src off) d1 = Some dst'"
    by (auto split: option.splits)
  note s = internal_copy_SomeD [OF d1]
  note ih = Cons.IH [OF rest]
  have k: "i_key_array d1 ! j = (if int j = i then i_key_array src ! nat (i + off) else i_key_array dst ! j)" for j
    using s by (cases "int j = i") (auto simp: nth_list_update)
  have v: "i_page_id_array d1 ! j = (if int j = i then i_page_id_array src ! nat (i + off) else i_page_id_array dst ! j)" for j
    using s by (cases "int j = i") (auto simp: nth_list_update)
  show ?case
    using ih s by (auto simp: k v)
qed





lemma internal_copy0_SomeD:
  assumes "internal_copy0 src off i dst = Some dst'"
  shows "0 \<le> i \<and> 0 \<le> i + off \<and>
     i + off < int (length (i_page_id_array src)) \<and>
     i < int (length (i_page_id_array dst)) \<and>
     (0 < i \<longrightarrow> i + off < int (length (i_key_array src)) \<and> i < int (length (i_key_array dst))) \<and>
     dst' = dst\<lparr>i_key_array :=
                  (if 0 < i then (i_key_array dst)[nat i := i_key_array src ! nat (i + off)]
                   else i_key_array dst),
                i_page_id_array := (i_page_id_array dst)[nat i := i_page_id_array src ! nat (i + off)]\<rparr>"
  using assms
  by (auto simp: internal_copy0_def split: bind_splits if_splits
      dest!: internal_KeyAt_SomeD internal_ValueAt_SomeD internal_SetKeyAt_SomeD internal_SetValueAt_SomeD)

lemma for_each_internal_copy0:
  assumes "for_each is (internal_copy0 src off) dst = Some dst'"
  shows "i_size dst' = i_size dst \<and> i_max_size dst' = i_max_size dst \<and>
     length (i_key_array dst') = length (i_key_array dst) \<and>
     length (i_page_id_array dst') = length (i_page_id_array dst) \<and>
     (\<forall>j. i_key_array dst' ! j =
        (if int j \<in> set is \<and> 0 < j then i_key_array src ! nat (int j + off) else i_key_array dst ! j)) \<and>
     (\<forall>j. i_page_id_array dst' ! j =
        (if int j \<in> set is then i_page_id_array src ! nat (int j + off) else i_page_id_array dst ! j)) \<and>
     (\<forall>i\<in>set is. 0 \<le> i \<and> i < int (length (i_page_id_array dst)) \<and>
        (0 < i \<longrightarrow> i < int (length (i_key_array dst))))"
  using assms
proof (induction "is" arbitrary: dst)
  case Nil
  then show ?case by simp
next
  case (Cons i "is")
  from Cons.prems obtain d1 where
    d1: "internal_copy0 src off i dst = Some d1" and rest: "for_each is (internal_copy0 src off) d1 = Some dst'"
    by (auto split: option.splits)
  note s = internal_copy0_SomeD [OF d1]
  note ih = Cons.IH [OF rest]
  have k: "i_key_array d1 ! j = (if int j = i \<and> 0 < j then i_key_array src ! nat (i + off) else i_key_array dst ! j)" for j
    using s by (cases "int j = i") (auto simp: nth_list_update)
  have v: "i_page_id_array d1 ! j = (if int j = i then i_page_id_array src ! nat (i + off) else i_page_id_array dst ! j)" for j
    using s by (cases "int j = i") (auto simp: nth_list_update)
  have l: "length (i_key_array d1) = length (i_key_array dst)"
    "length (i_page_id_array d1) = length (i_page_id_array dst)"
    "i_size d1 = i_size dst" "i_max_size d1 = i_max_size dst"
    using s by (auto split: if_splits)
  show ?case
    using ih s by (auto simp: k v l)
qed



lemma internal_redistribute_lower:
  assumes r: "internal_redistribute P Np (int i) (int f) (int s) k c = Some (P', N, tmp)"
    and lt: "i < f"
  shows "\<exists>p1 p2. internal_KeyAt P (int f - 1) = Some tmp \<and>
    for_each [0..int s - 1] (internal_copy0 P (int f - 1)) Np = Some N \<and>
    for_each (rev [int i + 1..int f - 1]) internal_shift P = Some p1 \<and>
    internal_SetKeyAt p1 (int i) k = Some p2 \<and>
    internal_SetValueAt p2 (int i) c = Some P'"
proof -
  have "int i < int f" using lt by simp
  with r have "(internal_KeyAt P (int f - 1) \<bind> (\<lambda>tmp_key.
      for_each [0..int s - 1] (internal_copy0 P (int f - 1)) Np \<bind> (\<lambda>new_internal_page.
      for_each (rev [int i + 1..int f - 1]) internal_shift P \<bind> (\<lambda>internal_page.
      internal_SetKeyAt internal_page (int i) k \<bind> (\<lambda>internal_page.
      internal_SetValueAt internal_page (int i) c \<bind> (\<lambda>internal_page.
      Some (internal_page, new_internal_page, tmp_key))))))) = Some (P', N, tmp)"
    unfolding internal_redistribute_def by (simp only: if_True)
  then show ?thesis
    by (elim bind_eq_Some_conv [THEN iffD1, elim_format] exE conjE) auto
qed

lemma internal_redistribute_upper:
  assumes r: "internal_redistribute P Np (int i) (int f) (int s) k c = Some (P', N, tmp)"
    and fi: "f \<le> i"
  shows "\<exists>n1 n2 n3. for_each [0..int i - int f - 1] (internal_copy0 P (int f)) Np = Some n1 \<and>
    internal_KeyAt P (int f) = Some tmp \<and>
    (if f < i then internal_SetKeyAt n1 (int i - int f) k else Some n1) = Some n2 \<and>
    internal_SetValueAt n2 (int i - int f) c = Some n3 \<and>
    for_each [int i - int f + 1..int s - 1] (internal_copy P (int f - 1)) n3 = Some N \<and>
    P' = P"
proof -
  have c: "\<not> int i < int f" "(int f < int i) = (f < i)" using fi by simp_all
  with r have "(for_each [0..int i - int f - 1] (internal_copy0 P (int f)) Np \<bind> (\<lambda>new_internal_page.
      internal_KeyAt P (int f) \<bind> (\<lambda>tmp_key.
      (if f < i then internal_SetKeyAt new_internal_page (int i - int f) k
       else Some new_internal_page) \<bind> (\<lambda>new_internal_page.
      internal_SetValueAt new_internal_page (int i - int f) c \<bind> (\<lambda>new_internal_page.
      for_each [int i - int f + 1..int s - 1] (internal_copy P (int f - 1)) new_internal_page \<bind>
        (\<lambda>new_internal_page.
      Some (P, new_internal_page, tmp_key))))))) = Some (P', N, tmp)"
    unfolding internal_redistribute_def by (simp only: if_False c)
  then show ?thesis
    by (elim bind_eq_Some_conv [THEN iffD1, elim_format] exE conjE) auto
qed










subsection \<open>The split of an internal page\<close>


subsection \<open>The split of an internal page runs to its end\<close>


















subsection \<open>When a full internal page is split\<close>

lemma internal_redistribute_room:
  assumes r: "internal_redistribute P Np (int i) (int f) (int s) k c = Some (P', N, tmp)"
    and s: "1 \<le> s" and up: "f \<le> i \<longrightarrow> i < f + s"
  shows "s \<le> length (i_page_id_array Np) \<and> (f \<le> i \<longrightarrow> f < length (i_key_array P))"
proof (cases "i < f")
  case True
  from internal_redistribute_lower [OF r True] obtain p1 p2 where
    a: "for_each [0..int s - 1] (internal_copy0 P (int f - 1)) Np = Some N"
    by blast
  from for_each_internal_copy0 [OF a]
  have "\<forall>j\<in>set [0..int s - 1]. j < int (length (i_page_id_array Np))" by blast
  moreover have "int s - 1 \<in> set [0..int s - 1]" using s by simp
  ultimately have "int s - 1 < int (length (i_page_id_array Np))" by blast
  with True show ?thesis by simp
next
  case False
  then have fi: "f \<le> i" by simp
  from internal_redistribute_upper [OF r fi] obtain n1 n2 n3 where
    a: "for_each [0..int i - int f - 1] (internal_copy0 P (int f)) Np = Some n1" and
    t: "internal_KeyAt P (int f) = Some tmp" and
    b: "(if f < i then internal_SetKeyAt n1 (int i - int f) k else Some n1) = Some n2" and
    c: "internal_SetValueAt n2 (int i - int f) c = Some n3" and
    d: "for_each [int i - int f + 1..int s - 1] (internal_copy P (int f - 1)) n3 = Some N"
    by blast
  have l1: "length (i_page_id_array n1) = length (i_page_id_array Np)"
    using for_each_internal_copy0 [OF a] by simp
  have l2: "length (i_page_id_array n2) = length (i_page_id_array Np)"
    using b l1 by (auto split: if_splits dest!: internal_SetKeyAt_SomeD)
  have l3: "length (i_page_id_array n3) = length (i_page_id_array Np)"
    using internal_SetValueAt_SomeD [OF c] l2 by auto
  have K: "f < length (i_key_array P)"
    using internal_KeyAt_SomeD [OF t] by simp
  have "s \<le> length (i_page_id_array Np)"
  proof (cases "i + 1 = f + s")
    case True
    have "int i - int f < int (length (i_page_id_array n2))"
      using internal_SetValueAt_SomeD [OF c] by simp
    with True l2 show ?thesis by simp
  next
    case False
    with up fi have "int s - 1 \<in> set [int i - int f + 1..int s - 1]" by auto
    moreover from for_each_internal_copy [OF d]
    have "\<forall>j\<in>set [int i - int f + 1..int s - 1]. j < int (length (i_page_id_array n3))" by blast
    ultimately have "int s - 1 < int (length (i_page_id_array n3))" by blast
    with l3 show ?thesis by simp
  qed
  with K show ?thesis by simp
qed

text \<open>
  The conditions on the fresh page and on key slot \<open>first\<close> lose nothing: they hold whenever
  a full internal page is split.
\<close>

lemma split_internal_only_if:
  fixes t :: "('k::zero, 'v) bplustree"
  assumes sp: "split_internal t pid P (q + 1) k c = Some (t1, tmp, nid)"
    and M: "i_max_size P = M" "1 \<le> M" and pos: "0 \<le> q" "q < M"
  shows "M + 1 - (M + 2) div 2 \<le> int (internal_slot_cnt t) \<and>
    ((M + 2) div 2 \<le> q + 1 \<longrightarrow> (M + 2) div 2 < int (length (i_key_array P)))"
proof -
  have "M = int (nat M)" "1 \<le> nat M" using M(2) by simp_all
  then obtain m where m: "M = int m" "1 \<le> m" by blast
  have "q + 1 = int (nat (q + 1))" "nat (q + 1) \<le> m"
    using pos m by simp_all
  then obtain i where i: "q + 1 = int i" "i \<le> m" by blast
  define f where "f = (m + 2) div 2"
  define s where "s = Suc m - f"
  have sizes: "f + s = Suc m" "1 \<le> f" "f \<le> m" "1 \<le> s"
    using m by (auto simp: f_def s_def)
  have first: "(M + 2) div 2 = int f"
    unfolding m f_def by (simp add: zdiv_int)
  have fs: "(i_max_size P + 2) sdiv 2 = int f" "i_max_size P + 1 - int f = int s"
    using M(1) m sizes by (auto simp: sdiv_two_nat f_def s_def)
  have "\<exists>P1 Np P' N. internal_redistribute P1 Np (int i) (int f) (int s) k c = Some (P', N, tmp) \<and>
      length (i_page_id_array Np) = internal_slot_cnt t \<and>
      length (i_key_array P1) = length (i_key_array P)"
    using sp [unfolded i]
    unfolding split_internal_def NewInternalPage_def Let_def fs prod.case
    apply (elim bind_eq_Some_conv [THEN iffD1, elim_format] exE conjE)
    apply (simp split: prod.splits)
    apply (elim bind_eq_Some_conv [THEN iffD1, elim_format] exE conjE)
    apply clarsimp
    apply (intro exI conjI)
      apply assumption
     apply simp
    apply simp
    done
  then obtain P1 Np P' N where
    r: "internal_redistribute P1 Np (int i) (int f) (int s) k c = Some (P', N, tmp)" and
    l: "length (i_page_id_array Np) = internal_slot_cnt t"
       "length (i_key_array P1) = length (i_key_array P)"
    by blast
  have "f \<le> i \<longrightarrow> i < f + s" using sizes i(2) by simp
  from internal_redistribute_room [OF r sizes(4) this] l
  have "s \<le> internal_slot_cnt t" "f \<le> i \<longrightarrow> f < length (i_key_array P)" by simp_all
  moreover have "M + 1 - int f = int s" using sizes m by simp
  ultimately show ?thesis
    unfolding first i(1) by simp
qed

end
